theory Spec2Isabelle
  imports Main "HOL-Library.Product_Lexorder"
begin

section \<open>Data model of minesweeper.py\<close>

text \<open>
  A cell is a pair of Python integers \<open>(row, column)\<close>. Python sets of cells are HOL sets;
  a \<open>for\<close> loop over a Python set visits its members in an order the language leaves open,
  and the model visits them in ascending order (\<open>cells_in_order\<close>). The lemmas
  \<open>fold_ai_mark_mine\<close> and \<open>fold_ai_mark_safe\<close> below show that the loops of the source
  do not depend on that order.
\<close>

type_synonym cell = "int \<times> int"

datatype error = ValueError

record sentence =
  cells :: "cell set"
  count :: int

record ai =
  height :: int
  width :: int
  moves_made :: "cell set"
  mines :: "cell set"
  safes :: "cell set"
  knowledge :: "sentence list"

definition cells_in_order :: "cell set \<Rightarrow> cell list" where
  "cells_in_order C = sorted_list_of_set C"

section \<open>class Minesweeper\<close>

text \<open>The game places its mines at random; the solver sees it only through the counts of
  \<open>nearby_mines\<close>. The board is a list of rows of booleans, \<open>True\<close> for a mine, with
  \<open>game_height\<close> rows of \<open>game_width\<close> entries; \<open>nearby_mines\<close> reads it only at indices it
  has checked against the bounds.\<close>

record minesweeper =
  game_height :: int
  game_width :: int
  game_mines :: "cell set"
  board :: "bool list list"
  mines_found :: "cell set"

definition nearby_mines :: "minesweeper \<Rightarrow> cell \<Rightarrow> int" where
  "nearby_mines g cell =
     fold (\<lambda>i. fold (\<lambda>j cnt.
                      if (i, j) = cell then cnt
                      else if (0 \<le> i \<and> i < game_height g \<and> 0 \<le> j \<and> j < game_width g) \<and>
                              board g ! nat i ! nat j
                      then cnt + 1 else cnt)
                   [snd cell - 1 .. snd cell + 1])
          [fst cell - 1 .. fst cell + 1] 0"

section \<open>class Sentence\<close>

definition Sentence :: "cell set \<Rightarrow> int \<Rightarrow> sentence" where
  "Sentence cs n = \<lparr>cells = cs, count = n\<rparr>"

text \<open>\<open>known_mines\<close> and \<open>known_safes\<close> fall off the end of the function when the test
  fails, which returns Python's \<open>None\<close>.\<close>

definition known_mines :: "sentence \<Rightarrow> cell set option" where
  "known_mines S = (if count S = int (card (cells S)) then Some (cells S) else None)"

definition known_safes :: "sentence \<Rightarrow> cell set option" where
  "known_safes S = (if count S = 0 then Some (cells S) else None)"

definition sentence_mark_mine :: "cell \<Rightarrow> sentence \<Rightarrow> sentence" where
  "sentence_mark_mine c S =
     (if c \<in> cells S then S\<lparr>cells := cells S - {c}, count := count S - 1\<rparr> else S)"

definition sentence_mark_safe :: "cell \<Rightarrow> sentence \<Rightarrow> sentence" where
  "sentence_mark_safe c S =
     (if c \<in> cells S then S\<lparr>cells := cells S - {c}\<rparr> else S)"

section \<open>class MinesweeperAI\<close>

definition MinesweeperAI :: "int \<Rightarrow> int \<Rightarrow> ai" where
  "MinesweeperAI h w =
     \<lparr>height = h, width = w, moves_made = {}, mines = {}, safes = {}, knowledge = []\<rparr>"

definition ai_mark_mine :: "cell \<Rightarrow> ai \<Rightarrow> ai" where
  "ai_mark_mine c s =
     s\<lparr>mines := insert c (mines s), knowledge := map (sentence_mark_mine c) (knowledge s)\<rparr>"

definition ai_mark_safe :: "cell \<Rightarrow> ai \<Rightarrow> ai" where
  "ai_mark_safe c s =
     s\<lparr>safes := insert c (safes s), knowledge := map (sentence_mark_safe c) (knowledge s)\<rparr>"

definition directions :: "(int \<times> int) list" where
  "directions = [(0, 1), (0, -1), (1, 0), (-1, 0), (1, 1), (-1, -1), (1, -1), (-1, 1)]"

definition find_unexplored_neighbors :: "ai \<Rightarrow> cell \<Rightarrow> cell set" where
  "find_unexplored_neighbors s cell =
     fold (\<lambda>d neighbors.
             let neighbor_y = fst cell + fst d;
                 neighbor_x = snd cell + snd d;
                 neighbor_cell = (neighbor_y, neighbor_x)
             in if (0 \<le> neighbor_y \<and> neighbor_y < height s \<and>
                    0 \<le> neighbor_x \<and> neighbor_x < width s) \<and>
                   neighbor_cell \<notin> moves_made s \<union> safes s \<union> mines s
                then insert neighbor_cell neighbors
                else neighbors)
          directions {}"

subsection \<open>One pass of the loop of add_knowledge\<close>

text \<open>Lines 213-218: the cells of every sentence whose length equals its count, except
  those already in \<open>mines\<close>.\<close>

definition collect_mines :: "ai \<Rightarrow> cell set" where
  "collect_mines s =
     fold (\<lambda>S to_be_marked.
             if int (card (cells S)) = count S
             then fold (\<lambda>c tbm. if c \<notin> mines s \<union> tbm then insert c tbm else tbm)
                       (cells_in_order (cells S)) to_be_marked
             else to_be_marked)
          (knowledge s) {}"

text \<open>\<open>list.remove(x)\<close> deletes the first element equal to \<open>x\<close> and raises
  \<open>ValueError\<close> when there is none. \<open>Sentence.__eq__\<close> compares the cell sets and the
  counts, which is the equality of the record.\<close>

definition list_remove :: "'a \<Rightarrow> 'a list \<Rightarrow> error + 'a list" where
  "list_remove x xs = (if x \<in> set xs then Inr (remove1 x xs) else Inl ValueError)"

text \<open>Lines 228-233: the loop over the deep copy \<open>temp_knowledge\<close>. The accumulator is
  \<open>safes_to_be_marked\<close> and the live \<open>self.knowledge\<close>; \<open>known\<close> is \<open>self.safes\<close>, which
  the loop does not change.\<close>

fun collect_safes ::
  "cell set \<Rightarrow> sentence list \<Rightarrow> cell set \<times> sentence list \<Rightarrow> error + (cell set \<times> sentence list)"
where
  "collect_safes known [] acc = Inr acc"
| "collect_safes known (S # temp) (to_be_marked, kb) =
     (if count S = 0
      then (case list_remove S kb of
              Inl e \<Rightarrow> Inl e
            | Inr kb' \<Rightarrow>
                collect_safes known temp
                  (fold (\<lambda>c tbm. if c \<notin> known \<union> tbm then insert c tbm else tbm)
                        (cells_in_order (cells S)) to_be_marked,
                   kb'))
      else collect_safes known temp (to_be_marked, kb))"

text \<open>Lines 241-247: the candidates of the subset rule, in the order the two nested loops
  meet them.\<close>

definition subset_inference :: "sentence list \<Rightarrow> sentence list" where
  "subset_inference kb =
     fold (\<lambda>sentence_a new_knowledge.
             fold (\<lambda>sentence_b nk.
                     if cells sentence_a \<noteq> cells sentence_b \<and>
                        cells sentence_a \<subseteq> cells sentence_b
                     then (let new_sentence =
                                 Sentence (cells sentence_b - cells sentence_a)
                                          (count sentence_b - count sentence_a)
                           in if new_sentence \<notin> set kb \<and> new_sentence \<notin> set nk
                              then nk @ [new_sentence] else nk)
                     else nk)
                  kb new_knowledge)
          kb []"

text \<open>The body of \<open>while loop_again\<close>; the first component of the result is the value of
  \<open>loop_again\<close> at the end of the pass.\<close>

definition propagation_pass :: "ai \<Rightarrow> error + (bool \<times> ai)" where
  "propagation_pass s =
     (let mines_to_be_marked = cells_in_order (collect_mines s);
          s1 = fold ai_mark_mine mines_to_be_marked s
      in case collect_safes (safes s1) (knowledge s1) ({}, knowledge s1) of
           Inl e \<Rightarrow> Inl e
         | Inr (to_be_marked, kb) \<Rightarrow>
             (let safes_to_be_marked = cells_in_order to_be_marked;
                  s2 = fold ai_mark_safe safes_to_be_marked (s1\<lparr>knowledge := kb\<rparr>);
                  new_knowledge = subset_inference (knowledge s2)
              in Inr (mines_to_be_marked \<noteq> [] \<or> safes_to_be_marked \<noteq> [] \<or> new_knowledge \<noteq> [],
                      s2\<lparr>knowledge := knowledge s2 @ new_knowledge\<rparr>)))"

text \<open>The loop itself. \<open>None\<close> is a loop that never stops.\<close>

partial_function (option) propagate :: "ai \<Rightarrow> (error + ai) option" where
  "propagate s =
     (case propagation_pass s of
        Inl e \<Rightarrow> Some (Inl e)
      | Inr r \<Rightarrow> if fst r then propagate (snd r) else Some (Inr (snd r)))"

declare propagate.simps [code]

text \<open>Lines 193-205, before the loop.\<close>

definition record_observation :: "ai \<Rightarrow> cell \<Rightarrow> int \<Rightarrow> ai" where
  "record_observation s cell n =
     (let s1 = ai_mark_safe cell (s\<lparr>moves_made := insert cell (moves_made s)\<rparr>);
          unexplored_neighbors = find_unexplored_neighbors s1 cell
      in if n = 0 then fold ai_mark_safe (cells_in_order unexplored_neighbors) s1
         else if int (card unexplored_neighbors) \<le> n
         then fold ai_mark_mine (cells_in_order unexplored_neighbors) s1
         else s1\<lparr>knowledge := knowledge s1 @ [Sentence unexplored_neighbors n]\<rparr>)"

definition add_knowledge :: "ai \<Rightarrow> cell \<Rightarrow> int \<Rightarrow> (error + ai) option" where
  "add_knowledge s cell n = propagate (record_observation s cell n)"

text \<open>A sequence of calls of \<open>add_knowledge\<close> on the same solver, stopping at the first
  call that raises or does not return.\<close>

fun add_knowledge_seq :: "ai \<Rightarrow> (cell \<times> int) list \<Rightarrow> (error + ai) option" where
  "add_knowledge_seq s [] = Some (Inr s)"
| "add_knowledge_seq s (ob # obs) =
     (case add_knowledge s (fst ob) (snd ob) of
        Some (Inr s') \<Rightarrow> add_knowledge_seq s' obs
      | r \<Rightarrow> r)"

subsection \<open>Move selection\<close>

text \<open>\<open>make_safe_move\<close> prints the set of safe cells not yet played and pops one member of
  it. Which member \<open>set.pop\<close> yields is not fixed by the language, so the operation is a
  relation between the solver and the triple of the printed set, the returned value and the
  solver afterwards.\<close>

inductive make_safe_move :: "ai \<Rightarrow> cell set \<times> cell option \<times> ai \<Rightarrow> bool" where
  no_move: "safes s - moves_made s = {} \<Longrightarrow> make_safe_move s (safes s - moves_made s, None, s)"
| move: "safe_cell \<in> safes s - moves_made s \<Longrightarrow>
         make_safe_move s (safes s - moves_made s, Some safe_cell, s)"

code_pred make_safe_move .

text \<open>\<open>make_random_move\<close> draws cells from the random sampler until one is neither played
  nor a known mine. The draws are an argument; \<open>Inr None\<close> says that the draws given were
  all rejected and the loop is still running. \<open>random.randrange\<close> raises \<open>ValueError\<close>
  on an empty range.\<close>

fun make_random_move :: "ai \<Rightarrow> cell list \<Rightarrow> (error + cell option) \<times> ai" where
  "make_random_move s [] = (if height s \<le> 0 \<or> width s \<le> 0 then Inl ValueError else Inr None, s)"
| "make_random_move s (random_cell # draws) =
     (if height s \<le> 0 \<or> width s \<le> 0 then (Inl ValueError, s)
      else if random_cell \<notin> moves_made s \<union> mines s then (Inr (Some random_cell), s)
      else make_random_move s draws)"

section \<open>Notions used in the proofs\<close>

text \<open>The cells that a loop over the set \<open>C\<close> visits: all of \<open>C\<close> when \<open>C\<close> is finite, as every
  Python set is.\<close>

definition visited :: "cell set \<Rightarrow> cell set" where
  "visited C = set (cells_in_order C)"

text \<open>What is left of a sentence once every cell of \<open>T\<close> has been marked as a mine, and once
  every cell of \<open>T\<close> has been marked safe.\<close>

definition mark_mines :: "cell set \<Rightarrow> sentence \<Rightarrow> sentence" where
  "mark_mines T S = S\<lparr>cells := cells S - T, count := count S - int (card (cells S \<inter> T))\<rparr>"

definition mark_safes :: "cell set \<Rightarrow> sentence \<Rightarrow> sentence" where
  "mark_safes T S = S\<lparr>cells := cells S - T\<rparr>"

text \<open>The cells visited in the sentences of \<open>kb\<close> that satisfy \<open>P\<close>.\<close>

definition collected :: "(sentence \<Rightarrow> bool) \<Rightarrow> sentence list \<Rightarrow> cell set" where
  "collected P kb = (\<Union>S \<in> set (filter P kb). visited (cells S))"

text \<open>The subset rule: the sentence derived from \<open>a\<close> and \<open>b\<close>, the test on the pair, the
  sentences derivable from a list, and the body of the inner loop.\<close>

definition difference :: "sentence \<Rightarrow> sentence \<Rightarrow> sentence" where
  "difference a b = Sentence (cells b - cells a) (count b - count a)"

definition proper_subset :: "sentence \<Rightarrow> sentence \<Rightarrow> bool" where
  "proper_subset a b \<longleftrightarrow> cells a \<noteq> cells b \<and> cells a \<subseteq> cells b"

definition candidates_of :: "sentence \<Rightarrow> sentence list \<Rightarrow> sentence set" where
  "candidates_of a bs = difference a ` set (filter (proper_subset a) bs)"

definition candidates :: "sentence list \<Rightarrow> sentence list \<Rightarrow> sentence set" where
  "candidates as bs = (\<Union>a \<in> set as. candidates_of a bs)"

definition infer_step :: "sentence list \<Rightarrow> sentence \<Rightarrow> sentence \<Rightarrow> sentence list \<Rightarrow> sentence list" where
  "infer_step kb a b nk =
     (if proper_subset a b \<and> difference a b \<notin> set kb \<and> difference a b \<notin> set nk
      then nk @ [difference a b] else nk)"

text \<open>A sentence all of whose cells are mines, and one none of whose cells is.\<close>

definition full :: "sentence \<Rightarrow> bool" where
  "full S \<longleftrightarrow> int (card (cells S)) = count S"

definition resolved :: "sentence \<Rightarrow> bool" where
  "resolved S \<longleftrightarrow> count S = 0"

text \<open>One pass in closed form: the cells it marks as mines, the knowledge list after that, the
  cells it marks safe, the knowledge list after that, the solver at the end of the pass, and
  the value of \<open>loop_again\<close>.\<close>

definition new_mines :: "ai \<Rightarrow> cell set" where
  "new_mines s = collected full (knowledge s) - mines s"

definition after_mines :: "ai \<Rightarrow> sentence list" where
  "after_mines s = map (mark_mines (new_mines s)) (knowledge s)"

definition new_safes :: "ai \<Rightarrow> cell set" where
  "new_safes s = collected resolved (after_mines s) - safes s"

definition after_safes :: "ai \<Rightarrow> sentence list" where
  "after_safes s =
     map (mark_safes (new_safes s)) (filter (\<lambda>S. \<not> resolved S) (after_mines s))"

definition after_pass :: "ai \<Rightarrow> ai" where
  "after_pass s =
     s\<lparr>mines := mines s \<union> new_mines s, safes := safes s \<union> new_safes s,
       knowledge := after_safes s @ subset_inference (after_safes s)\<rparr>"

definition pass_again :: "ai \<Rightarrow> bool" where
  "pass_again s \<longleftrightarrow>
     new_mines s \<noteq> {} \<or> new_safes s \<noteq> {} \<or> subset_inference (after_safes s) \<noteq> []"

text \<open>The cells of the grid.\<close>

definition in_grid :: "ai \<Rightarrow> cell \<Rightarrow> bool" where
  "in_grid s c \<longleftrightarrow> 0 \<le> fst c \<and> fst c < height s \<and> 0 \<le> snd c \<and> snd c < width s"

text \<open>Every cell of every sentence lies in the grid and is neither safe, nor a mine, nor played.\<close>

definition knowledge_inv :: "ai \<Rightarrow> bool" where
  "knowledge_inv s \<longleftrightarrow>
     (\<forall>S \<in> set (knowledge s). \<forall>c \<in> cells S.
        in_grid s c \<and> c \<notin> safes s \<and> c \<notin> mines s \<and> c \<notin> moves_made s)"

text \<open>The counts of all sentences agree with the mine layout \<open>M\<close>.\<close>

definition consistent :: "cell set \<Rightarrow> ai \<Rightarrow> bool" where
  "consistent M s \<longleftrightarrow> (\<forall>S \<in> set (knowledge s). count S = int (card (cells S \<inter> M)))"

text \<open>The solver after lines 193-194 of \<open>add_knowledge\<close>: the cell is played and safe.\<close>

definition observed :: "ai \<Rightarrow> cell \<Rightarrow> ai" where
  "observed s c = ai_mark_safe c (s\<lparr>moves_made := insert c (moves_made s)\<rparr>)"

text \<open>The count of \<open>S\<close> is the number of its cells that lie in \<open>M\<close>.\<close>

definition agrees :: "cell set \<Rightarrow> sentence \<Rightarrow> bool" where
  "agrees M S \<longleftrightarrow> count S = int (card (cells S \<inter> M))"

text \<open>The termination measure: the cells still mentioned by some sentence, and the non-empty
  cell sets that occur in the knowledge list.\<close>

definition pending :: "ai \<Rightarrow> cell set" where
  "pending s = (\<Union>S \<in> set (knowledge s). cells S)"

definition shapes :: "ai \<Rightarrow> cell set set" where
  "shapes s = cells ` set (knowledge s) - {{}}"

text \<open>A family of knowledge lists on which the loop never stops: the sentence \<open>{} = 2\<close> next to
  sentences over one two-cell set \<open>N\<close> with odd counts.\<close>

definition spinning :: "cell set \<Rightarrow> ai \<Rightarrow> bool" where
  "spinning N s \<longleftrightarrow>
     card N = 2 \<and>
     Sentence {} 2 \<in> set (knowledge s) \<and>
     (\<exists>S \<in> set (knowledge s). cells S = N) \<and>
     (\<forall>S \<in> set (knowledge s). S = Sentence {} 2 \<or> (cells S = N \<and> odd (count S)))"

section \<open>Properties\<close>

subsection \<open>Marking the cells of a list, in any order\<close>

lemma visited_finite [simp]: "finite C \<Longrightarrow> visited C = C"
  by (simp add: visited_def cells_in_order_def)

lemma visited_subset: "visited C \<subseteq> C"
  by (cases "finite C") (simp_all add: visited_def cells_in_order_def)

lemma finite_visited [simp]: "finite (visited C)"
  by (simp add: visited_def)

lemma mark_mines_step:
  "finite T \<Longrightarrow> mark_mines T (sentence_mark_mine c S) = mark_mines (insert c T) S"
proof (cases "c \<in> cells S")
  case False
  then show ?thesis by (simp add: mark_mines_def sentence_mark_mine_def)
next
  case True
  assume fin: "finite T"
  have eq: "cells S \<inter> insert c T = insert c ((cells S - {c}) \<inter> T)"
    using True by auto
  have "card (cells S \<inter> insert c T) = Suc (card ((cells S - {c}) \<inter> T))"
    unfolding eq using fin by (subst card_insert_disjoint) auto
  then show ?thesis using True
    by (intro sentence.equality) (auto simp: mark_mines_def sentence_mark_mine_def)
qed

lemma mark_safes_step:
  "mark_safes T (sentence_mark_safe c S) = mark_safes (insert c T) S"
  by (intro sentence.equality) (auto simp: mark_safes_def sentence_mark_safe_def)

lemma mark_mines_empty [simp]: "mark_mines {} S = S"
  by (simp add: mark_mines_def)

lemma mark_safes_empty [simp]: "mark_safes {} S = S"
  by (simp add: mark_safes_def)

lemma fold_ai_mark_mine:
  "fold ai_mark_mine xs s =
     s\<lparr>mines := mines s \<union> set xs, knowledge := map (mark_mines (set xs)) (knowledge s)\<rparr>"
proof (induction xs arbitrary: s)
  case Nil
  show ?case by (simp add: map_idI)
next
  case (Cons x xs)
  have "fold ai_mark_mine (x # xs) s = fold ai_mark_mine xs (ai_mark_mine x s)" by simp
  also have "\<dots> = (ai_mark_mine x s)\<lparr>mines := mines (ai_mark_mine x s) \<union> set xs,
        knowledge := map (mark_mines (set xs)) (knowledge (ai_mark_mine x s))\<rparr>"
    by (rule Cons.IH)
  also have "\<dots> = s\<lparr>mines := mines s \<union> set (x # xs),
        knowledge := map (mark_mines (set (x # xs))) (knowledge s)\<rparr>"
    by (simp add: ai_mark_mine_def mark_mines_step)
  finally show ?case .
qed

lemma fold_ai_mark_safe:
  "fold ai_mark_safe xs s =
     s\<lparr>safes := safes s \<union> set xs, knowledge := map (mark_safes (set xs)) (knowledge s)\<rparr>"
proof (induction xs arbitrary: s)
  case Nil
  show ?case by (simp add: map_idI)
next
  case (Cons x xs)
  have "fold ai_mark_safe (x # xs) s = fold ai_mark_safe xs (ai_mark_safe x s)" by simp
  also have "\<dots> = (ai_mark_safe x s)\<lparr>safes := safes (ai_mark_safe x s) \<union> set xs,
        knowledge := map (mark_safes (set xs)) (knowledge (ai_mark_safe x s))\<rparr>"
    by (rule Cons.IH)
  also have "\<dots> = s\<lparr>safes := safes s \<union> set (x # xs),
        knowledge := map (mark_safes (set (x # xs))) (knowledge s)\<rparr>"
    by (simp add: ai_mark_safe_def mark_safes_step)
  finally show ?case .
qed

subsection \<open>The two collection loops\<close>

lemma fold_collect:
  "fold (\<lambda>c tbm. if c \<notin> K \<union> tbm then insert c tbm else tbm) xs T = T \<union> (set xs - K)"
proof (induction xs arbitrary: T)
  case Nil
  show ?case by simp
next
  case (Cons x xs)
  have "fold (\<lambda>c tbm. if c \<notin> K \<union> tbm then insert c tbm else tbm) (x # xs) T =
        fold (\<lambda>c tbm. if c \<notin> K \<union> tbm then insert c tbm else tbm) xs
          (if x \<notin> K \<union> T then insert x T else T)"
    by (simp only: fold_simps)
  also have "\<dots> = (if x \<notin> K \<union> T then insert x T else T) \<union> (set xs - K)"
    by (rule Cons.IH)
  also have "\<dots> = T \<union> (set (x # xs) - K)"
    by auto
  finally show ?case .
qed

lemma collected_Nil [simp]: "collected P [] = {}"
  by (simp add: collected_def)

lemma collected_Cons:
  "collected P (S # kb) = (if P S then visited (cells S) \<union> collected P kb else collected P kb)"
  by (simp add: collected_def)

lemma fold_collect_sentences:
  "fold (\<lambda>S to_be_marked.
             if P S
             then fold (\<lambda>c tbm. if c \<notin> K \<union> tbm then insert c tbm else tbm)
                       (cells_in_order (cells S)) to_be_marked
             else to_be_marked) kb T
        = T \<union> (collected P kb - K)"
proof (induction kb arbitrary: T)
  case Nil
  show ?case by simp
next
  case (Cons S kb)
  let ?f = "\<lambda>S to_be_marked.
             if P S
             then fold (\<lambda>c tbm. if c \<notin> K \<union> tbm then insert c tbm else tbm)
                       (cells_in_order (cells S)) to_be_marked
             else to_be_marked"
  have "fold ?f (S # kb) T = fold ?f kb (?f S T)" by (simp only: fold_simps o_apply)
  also have "\<dots> = ?f S T \<union> (collected P kb - K)" by (rule Cons.IH)
  also have "?f S T = (if P S then T \<union> (visited (cells S) - K) else T)"
    by (simp only: fold_collect visited_def)
  also have "(if P S then T \<union> (visited (cells S) - K) else T) \<union> (collected P kb - K) =
             T \<union> (collected P (S # kb) - K)"
    unfolding collected_Cons by (cases "P S") (simp_all only: if_True if_False Un_Diff Un_assoc)
  finally show ?case .
qed

lemma collect_mines_eq:
  "collect_mines s = collected (\<lambda>S. int (card (cells S)) = count S) (knowledge s) - mines s"
  unfolding collect_mines_def by (simp only: fold_collect_sentences Un_empty_left)

lemma collect_safes_append:
  "\<forall>S \<in> set A. count S \<noteq> 0 \<Longrightarrow>
   collect_safes known temp (T, A @ temp) =
     Inr (T \<union> (collected (\<lambda>S. count S = 0) temp - known),
          A @ filter (\<lambda>S. count S \<noteq> 0) temp)"
proof (induction temp arbitrary: T A)
  case Nil
  show ?case by simp
next
  case (Cons S temp)
  show ?case
  proof (cases "count S = 0")
    case True
    then have notin: "S \<notin> set A" using Cons.prems by blast
    have rm: "list_remove S (A @ S # temp) = Inr (A @ temp)"
      using notin by (simp add: list_remove_def remove1_append)
    have "collect_safes known (S # temp) (T, A @ S # temp) =
          collect_safes known temp (T \<union> (visited (cells S) - known), A @ temp)"
      using True by (simp only: collect_safes.simps simp_thms if_True rm sum.case fold_collect visited_def)
    also have "\<dots> = Inr ((T \<union> (visited (cells S) - known)) \<union>
          (collected (\<lambda>S. count S = 0) temp - known),
          A @ filter (\<lambda>S. count S \<noteq> 0) temp)"
      by (rule Cons.IH) (rule Cons.prems)
    also have "(T \<union> (visited (cells S) - known)) \<union> (collected (\<lambda>S. count S = 0) temp - known)
          = T \<union> (collected (\<lambda>S. count S = 0) (S # temp) - known)"
      unfolding collected_Cons using True by (simp only: simp_thms if_True Un_Diff Un_assoc)
    also have "filter (\<lambda>S. count S \<noteq> 0) temp = filter (\<lambda>S. count S \<noteq> 0) (S # temp)"
      using True by simp
    finally show ?thesis .
  next
    case False
    have pre: "\<forall>S' \<in> set (A @ [S]). count S' \<noteq> 0" using False Cons.prems by simp
    have "collect_safes known (S # temp) (T, A @ S # temp) =
          collect_safes known temp (T, (A @ [S]) @ temp)"
      using False by simp
    also have "\<dots> = Inr (T \<union> (collected (\<lambda>S. count S = 0) temp - known),
               (A @ [S]) @ filter (\<lambda>S. count S \<noteq> 0) temp)"
      by (rule Cons.IH) (rule pre)
    also have "collected (\<lambda>S. count S = 0) temp = collected (\<lambda>S. count S = 0) (S # temp)"
      unfolding collected_Cons using False by simp
    also have "(A @ [S]) @ filter (\<lambda>S. count S \<noteq> 0) temp =
               A @ filter (\<lambda>S. count S \<noteq> 0) (S # temp)"
      using False by simp
    finally show ?thesis .
  qed
qed

lemma collect_safes_eq:
  "collect_safes known kb ({}, kb) =
     Inr (collected (\<lambda>S. count S = 0) kb - known, filter (\<lambda>S. count S \<noteq> 0) kb)"
  using collect_safes_append [of "[]" known kb "{}"] by simp

subsection \<open>The subset rule\<close>

lemma subset_inference_fold:
  "subset_inference kb = fold (\<lambda>a. fold (infer_step kb a) kb) kb []"
  unfolding subset_inference_def infer_step_def proper_subset_def difference_def Let_def
  by (intro arg_cong2 [where f = "\<lambda>f. fold f kb"] ext) auto

lemma inner_fold:
  "distinct nk \<Longrightarrow>
   distinct (fold (infer_step kb a) bs nk) \<and>
   set (fold (infer_step kb a) bs nk) = set nk \<union> (candidates_of a bs - set kb)"
proof (induction bs arbitrary: nk)
  case Nil
  then show ?case by (simp add: candidates_of_def)
next
  case (Cons b bs)
  have d: "distinct (infer_step kb a b nk)"
    using Cons.prems by (simp add: infer_step_def)
  have s: "set (infer_step kb a b nk) = set nk \<union> (candidates_of a [b] - set kb)"
    by (auto simp: infer_step_def candidates_of_def)
  have c: "candidates_of a (b # bs) = candidates_of a [b] \<union> candidates_of a bs"
    by (auto simp: candidates_of_def)
  have "fold (infer_step kb a) (b # bs) nk = fold (infer_step kb a) bs (infer_step kb a b nk)"
    by simp
  then show ?case using Cons.IH [OF d] s c by auto
qed

lemma outer_fold:
  "distinct nk \<Longrightarrow>
   distinct (fold (\<lambda>a. fold (infer_step kb a) bs) as nk) \<and>
   set (fold (\<lambda>a. fold (infer_step kb a) bs) as nk) = set nk \<union> (candidates as bs - set kb)"
proof (induction as arbitrary: nk)
  case Nil
  then show ?case by (simp add: candidates_def)
next
  case (Cons a as)
  have d: "distinct (fold (infer_step kb a) bs nk)"
    using inner_fold [OF Cons.prems] by blast
  have s: "set (fold (infer_step kb a) bs nk) = set nk \<union> (candidates_of a bs - set kb)"
    using inner_fold [OF Cons.prems] by blast
  have c: "candidates (a # as) bs = candidates_of a bs \<union> candidates as bs"
    by (simp add: candidates_def)
  have "fold (\<lambda>a. fold (infer_step kb a) bs) (a # as) nk =
        fold (\<lambda>a. fold (infer_step kb a) bs) as (fold (infer_step kb a) bs nk)"
    by simp
  then show ?case using Cons.IH [OF d] s c by auto
qed

lemma subset_inference_distinct: "distinct (subset_inference kb)"
  using outer_fold [of "[]" kb kb kb] by (simp add: subset_inference_fold)

lemma subset_inference_set: "set (subset_inference kb) = candidates kb kb - set kb"
  using outer_fold [of "[]" kb kb kb] by (simp add: subset_inference_fold)

subsection \<open>One pass in closed form\<close>

lemma finite_collected [simp]: "finite (collected P kb)"
  by (simp add: collected_def)

lemma cells_in_order_set: "finite C \<Longrightarrow> set (cells_in_order C) = C"
  by (simp add: cells_in_order_def)

lemma cells_in_order_Nil: "finite C \<Longrightarrow> cells_in_order C = [] \<longleftrightarrow> C = {}"
  by (simp add: cells_in_order_def)

lemma full_fun: "(\<lambda>S. int (card (cells S)) = count S) = full"
  by (rule ext) (simp add: full_def)

lemma resolved_fun: "(\<lambda>S. count S = 0) = resolved"
  by (rule ext) (simp add: resolved_def)

lemma unresolved_fun: "(\<lambda>S. count S \<noteq> 0) = (\<lambda>S. \<not> resolved S)"
  by (rule ext) (simp add: resolved_def)

lemma collect_mines_new: "collect_mines s = new_mines s"
  by (simp add: collect_mines_eq new_mines_def full_fun)

lemma finite_new_mines [simp]: "finite (new_mines s)"
  by (simp add: new_mines_def)

lemma finite_new_safes [simp]: "finite (new_safes s)"
  by (simp add: new_safes_def)

lemma propagation_pass_eq: "propagation_pass s = Inr (pass_again s, after_pass s)"
proof -
  let ?s1 = "fold ai_mark_mine (cells_in_order (collect_mines s)) s"
  have s1: "?s1 = s\<lparr>mines := mines s \<union> new_mines s, knowledge := after_mines s\<rparr>"
    by (simp add: fold_ai_mark_mine collect_mines_new cells_in_order_set after_mines_def)
  have cs: "collect_safes (safes ?s1) (knowledge ?s1) ({}, knowledge ?s1) =
            Inr (new_safes s, filter (\<lambda>S. \<not> resolved S) (after_mines s))"
    unfolding s1 by (simp add: collect_safes_eq new_safes_def resolved_fun unresolved_fun)
  let ?s2 = "fold ai_mark_safe (cells_in_order (new_safes s))
               (?s1\<lparr>knowledge := filter (\<lambda>S. \<not> resolved S) (after_mines s)\<rparr>)"
  have s2: "?s2 = s\<lparr>mines := mines s \<union> new_mines s, safes := safes s \<union> new_safes s,
                     knowledge := after_safes s\<rparr>"
    unfolding s1 by (simp add: fold_ai_mark_safe cells_in_order_set after_safes_def)
  have "propagation_pass s =
        Inr (cells_in_order (collect_mines s) \<noteq> [] \<or> cells_in_order (new_safes s) \<noteq> [] \<or>
             subset_inference (knowledge ?s2) \<noteq> [],
             ?s2\<lparr>knowledge := knowledge ?s2 @ subset_inference (knowledge ?s2)\<rparr>)"
    unfolding propagation_pass_def Let_def cs by simp
  also have "\<dots> = Inr (pass_again s, after_pass s)"
    unfolding s2 by (simp add: pass_again_def after_pass_def collect_mines_new cells_in_order_Nil)
  finally show ?thesis .
qed

subsection \<open>Unexplored neighbours and the new observation\<close>

lemma fold_neighbors:
  "fold (\<lambda>d nb. if Q d then insert (g d) nb else nb) ds A = A \<union> g ` {d \<in> set ds. Q d}"
proof (induction ds arbitrary: A)
  case Nil
  show ?case by simp
next
  case (Cons d ds)
  have "fold (\<lambda>d nb. if Q d then insert (g d) nb else nb) (d # ds) A =
        fold (\<lambda>d nb. if Q d then insert (g d) nb else nb) ds (if Q d then insert (g d) A else A)"
    by simp
  also have "\<dots> = (if Q d then insert (g d) A else A) \<union> g ` {d \<in> set ds. Q d}"
    by (rule Cons.IH)
  also have "\<dots> = A \<union> g ` {d' \<in> set (d # ds). Q d'}"
    by auto
  finally show ?case .
qed

lemma find_unexplored_neighbors_eq:
  "find_unexplored_neighbors s c =
     (\<lambda>d. (fst c + fst d, snd c + snd d)) `
       {d \<in> set directions. in_grid s (fst c + fst d, snd c + snd d) \<and>
          (fst c + fst d, snd c + snd d) \<notin> moves_made s \<union> safes s \<union> mines s}"
  unfolding find_unexplored_neighbors_def Let_def in_grid_def fst_conv snd_conv
  by (subst fold_neighbors) simp

lemma finite_unexplored [simp]: "finite (find_unexplored_neighbors s c)"
  by (simp add: find_unexplored_neighbors_eq)

lemma unexplored_in_grid: "x \<in> find_unexplored_neighbors s c \<Longrightarrow> in_grid s x"
  by (auto simp: find_unexplored_neighbors_eq)

lemma unexplored_unknown:
  "x \<in> find_unexplored_neighbors s c \<Longrightarrow> x \<notin> moves_made s \<and> x \<notin> safes s \<and> x \<notin> mines s"
  by (auto simp: find_unexplored_neighbors_eq)

lemma record_observation_eq:
  "record_observation s c n =
     (let s1 = observed s c; un = find_unexplored_neighbors s1 c
      in if n = 0 then s1\<lparr>safes := safes s1 \<union> un, knowledge := map (mark_safes un) (knowledge s1)\<rparr>
         else if int (card un) \<le> n
         then s1\<lparr>mines := mines s1 \<union> un, knowledge := map (mark_mines un) (knowledge s1)\<rparr>
         else s1\<lparr>knowledge := knowledge s1 @ [Sentence un n]\<rparr>)"
  unfolding record_observation_def observed_def Let_def
  by (simp add: fold_ai_mark_mine fold_ai_mark_safe cells_in_order_set)

lemma propagate_unfold:
  "propagate s = (if pass_again s then propagate (after_pass s) else Some (Inr (after_pass s)))"
  by (subst propagate.simps) (simp add: propagation_pass_eq)

subsection \<open>A pass keeps sentence cells unclassified, and safes apart from mines\<close>

lemma collectedD: "c \<in> collected P kb \<Longrightarrow> \<exists>S \<in> set kb. P S \<and> c \<in> cells S"
  using visited_subset by (fastforce simp: collected_def)

lemma new_minesD: "c \<in> new_mines s \<Longrightarrow> c \<notin> mines s \<and> (\<exists>S \<in> set (knowledge s). full S \<and> c \<in> cells S)"
  unfolding new_mines_def using collectedD by fastforce

lemma after_minesD:
  "S' \<in> set (after_mines s) \<Longrightarrow> \<exists>S \<in> set (knowledge s). S' = mark_mines (new_mines s) S"
  by (auto simp: after_mines_def)

lemma cells_mark_mines [simp]: "cells (mark_mines T S) = cells S - T"
  by (simp add: mark_mines_def)

lemma count_mark_mines [simp]: "count (mark_mines T S) = count S - int (card (cells S \<inter> T))"
  by (simp add: mark_mines_def)

lemma cells_mark_safes [simp]: "cells (mark_safes T S) = cells S - T"
  by (simp add: mark_safes_def)

lemma count_mark_safes [simp]: "count (mark_safes T S) = count S"
  by (simp add: mark_safes_def)

lemma new_safesD:
  "c \<in> new_safes s \<Longrightarrow>
     c \<notin> safes s \<and> c \<notin> new_mines s \<and> (\<exists>S \<in> set (knowledge s). c \<in> cells S)"
proof -
  assume c: "c \<in> new_safes s"
  then have "c \<notin> safes s" and "c \<in> collected resolved (after_mines s)"
    by (simp_all add: new_safes_def)
  then obtain S' where "S' \<in> set (after_mines s)" "c \<in> cells S'"
    using collectedD by blast
  then obtain S where "S \<in> set (knowledge s)" "c \<in> cells S - new_mines s"
    using after_minesD by fastforce
  then show ?thesis using \<open>c \<notin> safes s\<close> by blast
qed

lemma after_safesD:
  "S' \<in> set (after_safes s) \<Longrightarrow>
     \<exists>S \<in> set (knowledge s). \<not> resolved (mark_mines (new_mines s) S) \<and>
        S' = mark_safes (new_safes s) (mark_mines (new_mines s) S)"
  by (auto simp: after_safes_def after_mines_def)

lemma subset_inferenceD:
  "S' \<in> set (subset_inference kb) \<Longrightarrow>
     S' \<notin> set kb \<and> (\<exists>a \<in> set kb. \<exists>b \<in> set kb. proper_subset a b \<and> S' = difference a b)"
  unfolding subset_inference_set candidates_def candidates_of_def by auto

lemma cells_difference [simp]: "cells (difference a b) = cells b - cells a"
  by (simp add: difference_def Sentence_def)

lemma count_difference [simp]: "count (difference a b) = count b - count a"
  by (simp add: difference_def Sentence_def)

lemma after_pass_cells:
  assumes "S' \<in> set (knowledge (after_pass s))"
  shows "\<exists>S \<in> set (knowledge s). cells S' \<subseteq> cells S - new_mines s - new_safes s"
proof -
  have kb: "knowledge (after_pass s) = after_safes s @ subset_inference (after_safes s)"
    by (simp add: after_pass_def)
  have base: "\<exists>S \<in> set (knowledge s). cells T \<subseteq> cells S - new_mines s - new_safes s"
    if "T \<in> set (after_safes s)" for T
    using after_safesD [OF that] by auto
  show ?thesis
  proof (cases "S' \<in> set (after_safes s)")
    case True
    then show ?thesis by (rule base)
  next
    case False
    then have "S' \<in> set (subset_inference (after_safes s))" using assms kb by simp
    then obtain a b where b: "b \<in> set (after_safes s)" and S': "S' = difference a b"
      using subset_inferenceD by blast
    obtain S where "S \<in> set (knowledge s)" "cells b \<subseteq> cells S - new_mines s - new_safes s"
      using base [OF b] by blast
    then show ?thesis using S' by auto
  qed
qed

lemma after_pass_fields [simp]:
  "height (after_pass s) = height s" "width (after_pass s) = width s"
  "moves_made (after_pass s) = moves_made s"
  "mines (after_pass s) = mines s \<union> new_mines s"
  "safes (after_pass s) = safes s \<union> new_safes s"
  by (simp_all add: after_pass_def)

lemma in_grid_after_pass [simp]: "in_grid (after_pass s) = in_grid s"
  by (rule ext) (simp add: in_grid_def)

lemma knowledge_inv_after_pass: "knowledge_inv s \<Longrightarrow> knowledge_inv (after_pass s)"
  unfolding knowledge_inv_def
proof (intro ballI)
  fix S' c
  assume inv: "\<forall>S \<in> set (knowledge s). \<forall>c \<in> cells S.
        in_grid s c \<and> c \<notin> safes s \<and> c \<notin> mines s \<and> c \<notin> moves_made s"
    and S': "S' \<in> set (knowledge (after_pass s))" and c: "c \<in> cells S'"
  obtain S where "S \<in> set (knowledge s)" "cells S' \<subseteq> cells S - new_mines s - new_safes s"
    using after_pass_cells [OF S'] by blast
  then show "in_grid (after_pass s) c \<and> c \<notin> safes (after_pass s) \<and>
             c \<notin> mines (after_pass s) \<and> c \<notin> moves_made (after_pass s)"
    using inv c by auto
qed

lemma disjoint_after_pass:
  assumes "knowledge_inv s" "safes s \<inter> mines s = {}"
  shows "safes (after_pass s) \<inter> mines (after_pass s) = {}"
proof -
  have "c \<notin> safes s" if "c \<in> new_mines s" for c
    using new_minesD [OF that] assms(1) by (auto simp: knowledge_inv_def)
  moreover have "c \<notin> mines s \<and> c \<notin> new_mines s" if "c \<in> new_safes s" for c
    using new_safesD [OF that] assms(1) by (auto simp: knowledge_inv_def)
  ultimately show ?thesis using assms(2) by auto
qed

subsection \<open>Reasoning about the loop\<close>

text \<open>A property kept by every pass holds when the loop returns, and the loop returns no error.\<close>

lemma propagate_rule:
  assumes ret: "propagate s = Some r" and init: "I s"
    and step: "\<And>t. I t \<Longrightarrow> I (after_pass t)"
  shows "\<exists>s'. r = Inr s' \<and> I s'"
proof -
  have "I s \<longrightarrow> (\<exists>s'. r = Inr s' \<and> I s')"
  proof (rule propagate.raw_induct [where P = "\<lambda>x y. I x \<longrightarrow> (\<exists>s'. y = Inr s' \<and> I s')", OF _ ret])
    fix f t y
    assume IH: "\<And>x y. f x = Some y \<Longrightarrow> I x \<longrightarrow> (\<exists>s'. y = Inr s' \<and> I s')"
      and body: "(case propagation_pass t of Inl e \<Rightarrow> Some (Inl e)
                  | Inr r \<Rightarrow> if fst r then f (snd r) else Some (Inr (snd r))) = Some y"
    show "I t \<longrightarrow> (\<exists>s'. y = Inr s' \<and> I s')"
    proof
      assume It: "I t"
      from body have y: "(if pass_again t then f (after_pass t) else Some (Inr (after_pass t))) = Some y"
        by (simp add: propagation_pass_eq cong: if_cong)
      show "\<exists>s'. y = Inr s' \<and> I s'"
      proof (cases "pass_again t")
        case True
        then have "f (after_pass t) = Some y" using y by simp
        then show ?thesis using IH step [OF It] by blast
      next
        case False
        then have "y = Inr (after_pass t)" using y by simp
        then show ?thesis using step [OF It] by blast
      qed
    qed
  qed
  then show ?thesis using init by blast
qed

text \<open>A property that forces another pass and is kept by every pass makes the loop run forever.\<close>

lemma propagate_diverges:
  assumes init: "D s"
    and step: "\<And>t. D t \<Longrightarrow> pass_again t \<and> D (after_pass t)"
  shows "propagate s = None"
proof (rule ccontr)
  assume "propagate s \<noteq> None"
  then obtain r where ret: "propagate s = Some r" by blast
  have "\<not> D s"
  proof (rule propagate.raw_induct [where P = "\<lambda>x y. \<not> D x", OF _ ret])
    fix f t y
    assume IH: "\<And>x y. f x = Some y \<Longrightarrow> \<not> D x"
      and body: "(case propagation_pass t of Inl e \<Rightarrow> Some (Inl e)
                  | Inr r \<Rightarrow> if fst r then f (snd r) else Some (Inr (snd r))) = Some y"
    show "\<not> D t"
    proof
      assume Dt: "D t"
      then have "pass_again t" "D (after_pass t)" using step by blast+
      with body have "f (after_pass t) = Some y" by (simp add: propagation_pass_eq)
      then show False using IH \<open>D (after_pass t)\<close> by blast
    qed
  qed
  then show False using init by blast
qed

lemma observed_fields [simp]:
  "height (observed s c) = height s" "width (observed s c) = width s"
  "moves_made (observed s c) = insert c (moves_made s)"
  "mines (observed s c) = mines s"
  "safes (observed s c) = insert c (safes s)"
  "knowledge (observed s c) = map (sentence_mark_safe c) (knowledge s)"
  by (simp_all add: observed_def ai_mark_safe_def)

lemma cells_sentence_mark_safe [simp]: "cells (sentence_mark_safe c S) = cells S - {c}"
  by (simp add: sentence_mark_safe_def)

lemma count_sentence_mark_safe [simp]: "count (sentence_mark_safe c S) = count S"
  by (simp add: sentence_mark_safe_def)

lemma cells_sentence_mark_mine [simp]: "cells (sentence_mark_mine c S) = cells S - {c}"
  by (simp add: sentence_mark_mine_def)

lemma in_grid_observed [simp]: "in_grid (observed s c) = in_grid s"
  by (rule ext) (simp add: in_grid_def)

lemma record_observation_fields:
  "height (record_observation s c n) = height s"
  "width (record_observation s c n) = width s"
  "moves_made (record_observation s c n) = insert c (moves_made s)"
  "insert c (safes s) \<subseteq> safes (record_observation s c n)"
  "mines s \<subseteq> mines (record_observation s c n)"
  by (auto simp: record_observation_eq Let_def)

lemma knowledge_inv_observed: "knowledge_inv s \<Longrightarrow> knowledge_inv (observed s c)"
  by (auto simp: knowledge_inv_def)

lemma knowledge_inv_record_observation:
  assumes "knowledge_inv s"
  shows "knowledge_inv (record_observation s c n)"
proof -
  let ?s1 = "observed s c"
  let ?un = "find_unexplored_neighbors ?s1 c"
  have inv1: "knowledge_inv ?s1" using assms by (rule knowledge_inv_observed)
  have un: "\<forall>x \<in> ?un. in_grid ?s1 x \<and> x \<notin> safes ?s1 \<and> x \<notin> mines ?s1 \<and> x \<notin> moves_made ?s1"
    using unexplored_in_grid unexplored_unknown by blast
  show ?thesis
    unfolding record_observation_eq Let_def
    using inv1 un by (auto simp: knowledge_inv_def in_grid_def Sentence_def)
qed

lemma disjoint_record_observation:
  assumes "safes s \<inter> mines s = {}" "c \<notin> mines s"
  shows "safes (record_observation s c n) \<inter> mines (record_observation s c n) = {}"
proof -
  let ?s1 = "observed s c"
  let ?un = "find_unexplored_neighbors ?s1 c"
  have un: "\<forall>x \<in> ?un. x \<notin> safes ?s1 \<and> x \<notin> mines ?s1"
    using unexplored_unknown by blast
  show ?thesis
    unfolding record_observation_eq Let_def
    using assms un by auto
qed

subsection \<open>A pass keeps the counts consistent with a mine layout\<close>

lemma consistent_agrees: "consistent M s \<longleftrightarrow> (\<forall>S \<in> set (knowledge s). agrees M S)"
  by (simp add: consistent_def agrees_def)

lemma finite_in_grid: "finite {c. in_grid s c}"
proof -
  have "{c. in_grid s c} \<subseteq> {0..<height s} \<times> {0..<width s}"
    by (auto simp: in_grid_def)
  then show ?thesis by (rule finite_subset) simp
qed

lemma knowledge_inv_finite:
  "knowledge_inv s \<Longrightarrow> S \<in> set (knowledge s) \<Longrightarrow> finite (cells S)"
  by (rule finite_subset [OF _ finite_in_grid [of s]]) (auto simp: knowledge_inv_def)

lemma full_agrees_subset:
  assumes "finite (cells S)" "full S" "agrees M S"
  shows "cells S \<subseteq> M"
proof -
  have "card (cells S \<inter> M) = card (cells S)"
    using assms(2,3) by (simp add: full_def agrees_def)
  then have "cells S \<inter> M = cells S"
    using assms(1) by (intro card_subset_eq) auto
  then show ?thesis by blast
qed

lemma resolved_agrees_disjoint:
  assumes "finite (cells S)" "resolved S" "agrees M S"
  shows "cells S \<inter> M = {}"
  using assms by (simp add: resolved_def agrees_def)

lemma agrees_mark_mines:
  assumes fin: "finite (cells S)" and sub: "N \<subseteq> M" and ag: "agrees M S"
  shows "agrees M (mark_mines N S)"
proof -
  have split: "cells S \<inter> M = ((cells S - N) \<inter> M) \<union> (cells S \<inter> N)"
    using sub by auto
  have "card (cells S \<inter> M) = card ((cells S - N) \<inter> M) + card (cells S \<inter> N)"
    by (subst split, rule card_Un_disjoint) (use fin in auto)
  then show ?thesis using ag by (simp add: agrees_def)
qed

lemma agrees_mark_safes:
  assumes "F \<inter> M = {}" "agrees M S"
  shows "agrees M (mark_safes F S)"
proof -
  have "(cells S - F) \<inter> M = cells S \<inter> M" using assms(1) by auto
  then show ?thesis using assms(2) by (simp add: agrees_def)
qed

lemma agrees_difference:
  assumes fin: "finite (cells b)" and sub: "cells a \<subseteq> cells b"
    and a: "agrees M a" and b: "agrees M b"
  shows "agrees M (difference a b)"
proof -
  have eq: "(cells b - cells a) \<inter> M = (cells b \<inter> M) - (cells a \<inter> M)" by auto
  have le: "card (cells a \<inter> M) \<le> card (cells b \<inter> M)"
    by (rule card_mono) (use fin sub in auto)
  have "card ((cells b \<inter> M) - (cells a \<inter> M)) = card (cells b \<inter> M) - card (cells a \<inter> M)"
    by (rule card_Diff_subset) (use fin sub finite_subset in auto)
  then show ?thesis using a b le by (simp add: agrees_def eq)
qed

lemma new_mines_subset:
  assumes "knowledge_inv s" "consistent M s"
  shows "new_mines s \<subseteq> M"
proof
  fix c assume "c \<in> new_mines s"
  then obtain S where S: "S \<in> set (knowledge s)" "full S" "c \<in> cells S"
    using new_minesD by blast
  then have "cells S \<subseteq> M"
    using assms knowledge_inv_finite full_agrees_subset by (simp add: consistent_agrees)
  then show "c \<in> M" using S(3) by blast
qed

lemma after_mines_agrees:
  assumes "knowledge_inv s" "consistent M s" "S' \<in> set (after_mines s)"
  shows "agrees M S' \<and> finite (cells S')"
proof -
  obtain S where S: "S \<in> set (knowledge s)" "S' = mark_mines (new_mines s) S"
    using after_minesD [OF assms(3)] by blast
  have fin: "finite (cells S)" using assms(1) S(1) by (rule knowledge_inv_finite)
  have "agrees M S" using assms(2) S(1) by (simp add: consistent_agrees)
  then show ?thesis
    using agrees_mark_mines [OF fin new_mines_subset [OF assms(1,2)]] fin S(2) by simp
qed

lemma new_safes_disjoint:
  assumes "knowledge_inv s" "consistent M s"
  shows "new_safes s \<inter> M = {}"
proof -
  have "c \<notin> M" if "c \<in> new_safes s" for c
  proof -
    from that have "c \<in> collected resolved (after_mines s)" by (simp add: new_safes_def)
    then obtain S' where S': "S' \<in> set (after_mines s)" "resolved S'" "c \<in> cells S'"
      using collectedD by blast
    then have "cells S' \<inter> M = {}"
      using after_mines_agrees [OF assms S'(1)] resolved_agrees_disjoint by blast
    then show ?thesis using S'(3) by blast
  qed
  then show ?thesis by blast
qed

lemma after_safes_agrees:
  assumes "knowledge_inv s" "consistent M s" "S' \<in> set (after_safes s)"
  shows "agrees M S' \<and> finite (cells S')"
proof -
  obtain S1 where S1: "S1 \<in> set (after_mines s)" "S' = mark_safes (new_safes s) S1"
    using assms(3) by (auto simp: after_safes_def)
  show ?thesis
    using after_mines_agrees [OF assms(1,2) S1(1)] agrees_mark_safes [OF new_safes_disjoint [OF assms(1,2)]]
      S1(2) by simp
qed

lemma consistent_after_pass:
  assumes "knowledge_inv s" "consistent M s"
  shows "consistent M (after_pass s)"
  unfolding consistent_agrees
proof
  fix S' assume "S' \<in> set (knowledge (after_pass s))"
  then consider "S' \<in> set (after_safes s)" | "S' \<in> set (subset_inference (after_safes s))"
    by (auto simp: after_pass_def)
  then show "agrees M S'"
  proof cases
    case 1
    then show ?thesis using after_safes_agrees [OF assms] by blast
  next
    case 2
    then obtain a b where ab: "a \<in> set (after_safes s)" "b \<in> set (after_safes s)"
      "proper_subset a b" "S' = difference a b"
      using subset_inferenceD by blast
    show ?thesis
      unfolding ab(4)
      using after_safes_agrees [OF assms ab(1)] after_safes_agrees [OF assms ab(2)] ab(3)
      by (intro agrees_difference) (auto simp: proper_subset_def)
  qed
qed

subsection \<open>Termination of the loop on consistent knowledge\<close>

lemma finite_pending: "knowledge_inv s \<Longrightarrow> finite (pending s)"
  by (rule finite_subset [OF _ finite_in_grid [of s]]) (auto simp: pending_def knowledge_inv_def)

lemma pending_after_pass: "pending (after_pass s) \<subseteq> pending s - new_mines s - new_safes s"
proof
  fix c assume "c \<in> pending (after_pass s)"
  then obtain S' where "S' \<in> set (knowledge (after_pass s))" "c \<in> cells S'"
    by (auto simp: pending_def)
  then show "c \<in> pending s - new_mines s - new_safes s"
    using after_pass_cells [of S' s] by (auto simp: pending_def)
qed

lemma new_mines_pending: "new_mines s \<subseteq> pending s"
  using new_minesD by (fastforce simp: pending_def)

lemma new_safes_pending: "new_safes s \<subseteq> pending s"
  using new_safesD by (fastforce simp: pending_def)

lemma marking_shrinks:
  assumes "knowledge_inv s" "new_mines s \<noteq> {} \<or> new_safes s \<noteq> {}"
  shows "card (pending (after_pass s)) < card (pending s)"
proof -
  have "pending (after_pass s) \<subset> pending s"
    using pending_after_pass [of s] new_mines_pending [of s] new_safes_pending [of s] assms(2)
    by blast
  then show ?thesis using finite_pending [OF assms(1)] by (rule psubset_card_mono [rotated])
qed

lemma shapes_bound:
  assumes "knowledge_inv s"
  shows "finite (shapes s) \<and> card (shapes s) \<le> 2 ^ card (pending s)"
proof -
  have sub: "shapes s \<subseteq> Pow (pending s)" by (auto simp: shapes_def pending_def)
  have fin: "finite (Pow (pending s))" using finite_pending [OF assms] by simp
  have "card (shapes s) \<le> card (Pow (pending s))" using sub fin by (rule card_mono [rotated])
  then show ?thesis using finite_subset [OF sub fin] finite_pending [OF assms]
    by (simp add: card_Pow)
qed

lemma quiet_pass:
  assumes inv: "knowledge_inv s" and con: "consistent M s"
    and nm: "new_mines s = {}" and ns: "new_safes s = {}"
    and nk: "subset_inference (after_safes s) \<noteq> []"
  shows "shapes s \<subset> shapes (after_pass s)"
proof -
  have am: "after_mines s = knowledge s"
    by (simp add: after_mines_def nm map_idI)
  have as: "after_safes s = filter (\<lambda>S. \<not> resolved S) (knowledge s)"
    by (simp add: after_safes_def ns am map_idI)
  have empty: "cells S = {}" if "S \<in> set (knowledge s)" "resolved S" for S
  proof (rule ccontr)
    assume "cells S \<noteq> {}"
    then obtain c where c: "c \<in> cells S" by blast
    have "finite (cells S)" using inv that(1) by (rule knowledge_inv_finite)
    then have "c \<in> collected resolved (after_mines s)"
      using that c by (auto simp: am collected_def)
    then have "c \<in> safes s" using ns by (auto simp: new_safes_def)
    then show False using inv that(1) c by (auto simp: knowledge_inv_def)
  qed
  have kb': "knowledge (after_pass s) = after_safes s @ subset_inference (after_safes s)"
    by (simp add: after_pass_def)
  have keep: "shapes s \<subseteq> shapes (after_pass s)"
  proof
    fix X assume "X \<in> shapes s"
    then obtain S where S: "S \<in> set (knowledge s)" "X = cells S" "cells S \<noteq> {}"
      by (auto simp: shapes_def)
    then have "\<not> resolved S" using empty by blast
    then have "S \<in> set (knowledge (after_pass s))" using S(1) by (simp add: kb' as)
    then show "X \<in> shapes (after_pass s)" using S(2,3) by (auto simp: shapes_def)
  qed
  obtain S' where S': "S' \<in> set (subset_inference (after_safes s))"
    using nk by (cases "subset_inference (after_safes s)") auto
  then obtain a b where ab: "proper_subset a b" "S' = difference a b" and new: "S' \<notin> set (after_safes s)"
    using subset_inferenceD by blast
  have ne: "cells S' \<noteq> {}" using ab by (auto simp: proper_subset_def)
  have in': "cells S' \<in> shapes (after_pass s)"
    using S' ne by (auto simp: shapes_def kb')
  have "cells S' \<notin> shapes s"
  proof
    assume "cells S' \<in> shapes s"
    then obtain S where S: "S \<in> set (knowledge s)" "cells S = cells S'"
      by (auto simp: shapes_def)
    have "agrees M S" using con S(1) by (simp add: consistent_agrees)
    moreover have "agrees M S'"
      using consistent_after_pass [OF inv con] S' by (simp add: consistent_agrees kb')
    ultimately have "count S = count S'" using S(2) by (simp add: agrees_def)
    then have "S = S'" using S(2) by simp
    moreover have "\<not> resolved S" using empty [OF S(1)] S(2) ne by auto
    ultimately show False using S(1) new by (simp add: as)
  qed
  then show ?thesis using keep in' by blast
qed

lemma pass_decreases:
  assumes inv: "knowledge_inv s" and con: "consistent M s" and again: "pass_again s"
  shows "(after_pass s, s) \<in> measures [\<lambda>s. card (pending s), \<lambda>s. 2 ^ card (pending s) - card (shapes s)]"
proof (cases "new_mines s \<noteq> {} \<or> new_safes s \<noteq> {}")
  case True
  then show ?thesis using marking_shrinks [OF inv] by simp
next
  case False
  then have nm: "new_mines s = {}" and ns: "new_safes s = {}" by auto
  then have nk: "subset_inference (after_safes s) \<noteq> []" using again by (simp add: pass_again_def)
  have inv': "knowledge_inv (after_pass s)" using inv by (rule knowledge_inv_after_pass)
  have le: "card (pending (after_pass s)) \<le> card (pending s)"
    using pending_after_pass [of s] finite_pending [OF inv] by (intro card_mono) auto
  have lt: "card (shapes s) < card (shapes (after_pass s))"
    using quiet_pass [OF inv con nm ns nk] shapes_bound [OF inv'] by (intro psubset_card_mono) auto
  have bound: "card (shapes (after_pass s)) \<le> 2 ^ card (pending (after_pass s))"
    using shapes_bound [OF inv'] by blast
  show ?thesis
  proof (cases "card (pending (after_pass s)) < card (pending s)")
    case True
    then show ?thesis by simp
  next
    case False
    then have eq: "card (pending (after_pass s)) = card (pending s)" using le by simp
    have "(2::nat) ^ card (pending s) - card (shapes (after_pass s)) < 2 ^ card (pending s) - card (shapes s)"
      using lt bound unfolding eq by arith
    then show ?thesis using eq by simp
  qed
qed

lemma propagate_terminates:
  assumes "knowledge_inv s" "consistent M s"
  shows "\<exists>s'. propagate s = Some (Inr s') \<and> knowledge_inv s' \<and> consistent M s'"
  using assms
proof (induction s rule: wf_induct_rule [OF wf_measures [of "[\<lambda>s. card (pending s), \<lambda>s. 2 ^ card (pending s) - card (shapes s)]"]])
  case (1 s)
  have inv': "knowledge_inv (after_pass s)" using 1(2) by (rule knowledge_inv_after_pass)
  have con': "consistent M (after_pass s)" using 1(2,3) by (rule consistent_after_pass)
  show ?case
  proof (cases "pass_again s")
    case True
    have "(after_pass s, s) \<in> measures [\<lambda>s. card (pending s), \<lambda>s. 2 ^ card (pending s) - card (shapes s)]"
      using 1(2,3) True by (rule pass_decreases)
    then have "\<exists>s'. propagate (after_pass s) = Some (Inr s') \<and> knowledge_inv s' \<and> consistent M s'"
      using 1(1) inv' con' by blast
    then show ?thesis using True by (subst propagate_unfold) simp
  next
    case False
    then show ?thesis using inv' con' by (subst propagate_unfold) simp
  qed
qed

subsection \<open>One call of add_knowledge\<close>

lemma make_random_move_state: "snd (make_random_move s draws) = s"
  by (induction draws) simp_all

lemma add_knowledge_rule:
  assumes "add_knowledge s c n = Some r" "I (record_observation s c n)"
    and "\<And>t. I t \<Longrightarrow> I (after_pass t)"
  shows "\<exists>s'. r = Inr s' \<and> I s'"
  using assms unfolding add_knowledge_def by (rule propagate_rule)

lemma add_knowledge_step:
  assumes "add_knowledge s c n = Some r"
  shows "\<exists>s'. r = Inr s' \<and> height s' = height s \<and> width s' = width s \<and>
           moves_made s' = insert c (moves_made s) \<and>
           insert c (safes s) \<subseteq> safes s' \<and> mines s \<subseteq> mines s' \<and>
           (knowledge_inv s \<longrightarrow> knowledge_inv s') \<and>
           (knowledge_inv s \<and> safes s \<inter> mines s = {} \<and> c \<notin> mines s \<longrightarrow>
              safes s' \<inter> mines s' = {})"
proof -
  let ?I = "\<lambda>t. height t = height s \<and> width t = width s \<and>
           moves_made t = insert c (moves_made s) \<and>
           insert c (safes s) \<subseteq> safes t \<and> mines s \<subseteq> mines t \<and>
           (knowledge_inv s \<longrightarrow> knowledge_inv t) \<and>
           (knowledge_inv s \<and> safes s \<inter> mines s = {} \<and> c \<notin> mines s \<longrightarrow>
              safes t \<inter> mines t = {})"
  have init: "?I (record_observation s c n)"
    using record_observation_fields knowledge_inv_record_observation [of s c n]
      disjoint_record_observation [of s c n]
    by presburger
  have step: "?I (after_pass t)" if "?I t" for t
    using that knowledge_inv_after_pass [of t] disjoint_after_pass [of t]
    by (auto simp del: Int_Un_distrib Int_Un_distrib2 Un_Int_distrib Un_Int_distrib2)
  show ?thesis using assms init step by (rule add_knowledge_rule)
qed

subsection \<open>A loop that does not terminate\<close>

lemma spinning_cases:
  assumes "spinning N s" "S \<in> set (knowledge s)"
  shows "\<not> full S \<and> \<not> resolved S"
proof -
  have N: "card N = 2" using assms(1) by (simp add: spinning_def)
  consider "S = Sentence {} 2" | "cells S = N" "odd (count S)"
    using assms unfolding spinning_def by blast
  then show ?thesis
  proof cases
    case 1
    then show ?thesis by (simp add: full_def resolved_def Sentence_def)
  next
    case 2
    have "count S \<noteq> 2" "count S \<noteq> 0" using 2(2) by auto
    then show ?thesis using 2(1) N by (simp add: full_def resolved_def)
  qed
qed

lemma spinning_quiet:
  assumes "spinning N s"
  shows "new_mines s = {}" "new_safes s = {}" "after_safes s = knowledge s"
proof -
  show nm: "new_mines s = {}"
    using new_minesD spinning_cases [OF assms] by blast
  then have am: "after_mines s = knowledge s" by (simp add: after_mines_def map_idI)
  show ns: "new_safes s = {}"
    unfolding new_safes_def am using collectedD spinning_cases [OF assms] by blast
  have "filter (\<lambda>S. \<not> resolved S) (knowledge s) = knowledge s"
    using spinning_cases [OF assms] by (simp add: filter_id_conv)
  then show "after_safes s = knowledge s"
    by (simp add: after_safes_def am ns map_idI)
qed

lemma spinning_step:
  assumes sp: "spinning N s"
  shows "pass_again s \<and> spinning N (after_pass s)"
proof -
  let ?A = "Sentence {} 2"
  let ?kb = "knowledge s"
  note q = spinning_quiet [OF sp]
  have N: "card N = 2" using sp by (simp add: spinning_def)
  then have Nne: "N \<noteq> {}" by auto
  have A: "?A \<in> set ?kb" using sp by (simp add: spinning_def)
  have all: "S = ?A \<or> (cells S = N \<and> odd (count S))" if "S \<in> set ?kb" for S
    using sp that unfolding spinning_def by blast
  have cA: "cells ?A = {}" "count ?A = 2" by (simp_all add: Sentence_def)
  let ?Ns = "{S \<in> set ?kb. cells S = N}"
  have fin: "finite (count ` ?Ns)" by simp
  have ne: "count ` ?Ns \<noteq> {}" using sp unfolding spinning_def by blast
  obtain S0 where S0: "S0 \<in> set ?kb" "cells S0 = N" "count S0 = Min (count ` ?Ns)"
    using Min_in [OF fin ne] by auto
  let ?new = "difference ?A S0"
  have ps: "proper_subset ?A S0" using S0(2) Nne cA by (simp add: proper_subset_def)
  have cn: "cells ?new = N" "count ?new = count S0 - 2" using S0(2) cA by simp_all
  have notin: "?new \<notin> set ?kb"
  proof
    assume "?new \<in> set ?kb"
    then have "?new \<in> ?Ns" using cn(1) by simp
    then have "count ?new \<in> count ` ?Ns" by (rule imageI)
    then have "Min (count ` ?Ns) \<le> count ?new" using fin by (rule Min_le [rotated])
    then show False using S0(3) cn(2) by simp
  qed
  have "?new \<in> candidates_of ?A ?kb"
    unfolding candidates_of_def using S0(1) ps by simp
  then have "?new \<in> candidates ?kb ?kb" unfolding candidates_def using A by blast
  then have "?new \<in> set (subset_inference ?kb)" using notin by (simp add: subset_inference_set)
  then have "subset_inference ?kb \<noteq> []" by auto
  then have again: "pass_again s" by (simp add: pass_again_def q)
  have kb': "knowledge (after_pass s) = ?kb @ subset_inference ?kb"
    by (simp add: after_pass_def q)
  have derived: "cells S = N \<and> odd (count S)" if S: "S \<in> set (subset_inference ?kb)" for S
  proof -
    obtain a b where ab: "a \<in> set ?kb" "b \<in> set ?kb" "proper_subset a b" "S = difference a b"
      using subset_inferenceD [OF S] by blast
    have ne: "cells a \<noteq> cells b" and sub: "cells a \<subseteq> cells b"
      using ab(3) by (simp_all add: proper_subset_def)
    have "cells a = {}"
    proof (rule ccontr)
      assume "cells a \<noteq> {}"
      then have a: "cells a = N" using all [OF ab(1)] cA by auto
      then have "cells b \<noteq> {}" using sub Nne by auto
      then have "cells b = N" using all [OF ab(2)] cA by auto
      then show False using a ne by simp
    qed
    then have a: "a = ?A" using all [OF ab(1)] Nne by auto
    then have "cells b \<noteq> {}" using ne cA by auto
    then have b: "cells b = N" "odd (count b)" using all [OF ab(2)] cA by auto
    show ?thesis unfolding ab(4) a using b cA by simp
  qed
  have "spinning N (after_pass s)"
    unfolding spinning_def kb' set_append
  proof (intro conjI ballI)
    show "card N = 2" by (rule N)
    show "?A \<in> set ?kb \<union> set (subset_inference ?kb)" using A by blast
    show "\<exists>S \<in> set ?kb \<union> set (subset_inference ?kb). cells S = N" using S0(1,2) by blast
    fix S assume "S \<in> set ?kb \<union> set (subset_inference ?kb)"
    then show "S = ?A \<or> (cells S = N \<and> odd (count S))" using all derived by blast
  qed
  then show ?thesis using again by blast
qed

text \<open>A game on 3 rows and 4 columns with the mines \<open>(0,1)\<close>, \<open>(1,1)\<close> and \<open>(2,0)\<close>: the first
  three calls, and the state in which the fourth call enters the loop.\<close>

lemma game_calls:
  "add_knowledge_seq (MinesweeperAI 3 4) [((1, 0), 3), ((0, 0), 2), ((0, 2), 2)] =
     Some (Inr \<lparr>height = 3, width = 4, moves_made = {(0, 0), (0, 2), (1, 0)},
                mines = {(0, 1), (1, 1)}, safes = {(0, 0), (0, 2), (1, 0)},
                knowledge = [Sentence {(2, 0), (2, 1)} 1, Sentence {(0, 3), (1, 2), (1, 3)} 2]\<rparr>)"
  by code_simp

lemma game_last_observation:
  "record_observation
     \<lparr>height = 3, width = 4, moves_made = {(0, 0), (0, 2), (1, 0)},
       mines = {(0, 1), (1, 1)}, safes = {(0, 0), (0, 2), (1, 0)},
       knowledge = [Sentence {(2, 0), (2, 1)} 1, Sentence {(0, 3), (1, 2), (1, 3)} 2]\<rparr> (0, 3) 0 =
     \<lparr>height = 3, width = 4, moves_made = {(0, 0), (0, 2), (0, 3), (1, 0)},
       mines = {(0, 1), (1, 1)}, safes = {(0, 0), (0, 2), (0, 3), (1, 0), (1, 2), (1, 3)},
       knowledge = [Sentence {(2, 0), (2, 1)} 1, Sentence {} 2]\<rparr>"
  by code_simp

lemma game_last_call:
  "add_knowledge
     \<lparr>height = 3, width = 4, moves_made = {(0, 0), (0, 2), (1, 0)},
       mines = {(0, 1), (1, 1)}, safes = {(0, 0), (0, 2), (1, 0)},
       knowledge = [Sentence {(2, 0), (2, 1)} 1, Sentence {(0, 3), (1, 2), (1, 3)} 2]\<rparr> (0, 3) 0 =
     None"
proof -
  have "spinning {(2, 0), (2, 1)}
          \<lparr>height = 3, width = 4, moves_made = {(0, 0), (0, 2), (0, 3), (1, 0)},
            mines = {(0, 1), (1, 1)}, safes = {(0, 0), (0, 2), (0, 3), (1, 0), (1, 2), (1, 3)},
            knowledge = [Sentence {(2, 0), (2, 1)} 1, Sentence {} 2]\<rparr>"
    by (simp add: spinning_def Sentence_def)
  then have "propagate
          \<lparr>height = 3, width = 4, moves_made = {(0, 0), (0, 2), (0, 3), (1, 0)},
            mines = {(0, 1), (1, 1)}, safes = {(0, 0), (0, 2), (0, 3), (1, 0), (1, 2), (1, 3)},
            knowledge = [Sentence {(2, 0), (2, 1)} 1, Sentence {} 2]\<rparr> = None"
    using spinning_step by (rule propagate_diverges)
  then show ?thesis
    unfolding add_knowledge_def game_last_observation .
qed

lemma add_knowledge_seq_append:
  "add_knowledge_seq s (obs @ [ob]) =
     (case add_knowledge_seq s obs of
        Some (Inr s') \<Rightarrow> add_knowledge s' (fst ob) (snd ob)
      | r \<Rightarrow> r)"
proof (induction obs arbitrary: s)
  case Nil
  show ?case by (simp split: option.split sum.split)
next
  case (Cons a obs)
  show ?case by (simp add: Cons.IH split: option.split sum.split)
qed

lemma knowledge_inv_mark:
  assumes "knowledge_inv s"
  shows "knowledge_inv (ai_mark_safe c s)" "knowledge_inv (ai_mark_mine c s)"
  using assms by (auto simp: knowledge_inv_def ai_mark_safe_def ai_mark_mine_def in_grid_def)

subsection \<open>Sequences of calls\<close>

text \<open>A sequence of calls that returns raises nothing, only adds to \<open>safes\<close> and \<open>mines\<close>, and
  keeps the sentence cells unclassified.\<close>

lemma add_knowledge_seq_step:
  assumes "add_knowledge_seq s obs = Some r"
  shows "\<exists>s'. r = Inr s' \<and> safes s \<subseteq> safes s' \<and> mines s \<subseteq> mines s' \<and>
           (knowledge_inv s \<longrightarrow> knowledge_inv s')"
  using assms
proof (induction obs arbitrary: s)
  case Nil
  then show ?case by auto
next
  case (Cons ob obs)
  show ?case
  proof (cases "add_knowledge s (fst ob) (snd ob)")
    case None
    then show ?thesis using Cons.prems by simp
  next
    case (Some x)
    obtain s1 where x: "x = Inr s1"
      and mono1: "safes s \<subseteq> safes s1" "mines s \<subseteq> mines s1"
      and inv1: "knowledge_inv s \<longrightarrow> knowledge_inv s1"
      using add_knowledge_step [OF Some] by blast
    have run: "add_knowledge_seq s1 obs = Some r"
      using Cons.prems Some x by simp
    obtain s' where s': "r = Inr s'" "safes s1 \<subseteq> safes s'" "mines s1 \<subseteq> mines s'"
      "knowledge_inv s1 \<longrightarrow> knowledge_inv s'"
      using Cons.IH [OF run] by blast
    show ?thesis
      using s' mono1 inv1 by blast
  qed
qed

section \<open>The claims\<close>

text \<open>The counts that the game reports in the 3 by 3 scenario, whose only mine is \<open>(2,2)\<close>,
  for the four cells that are revealed.\<close>

lemma scenario_counts:
  "map (nearby_mines \<lparr>game_height = 3, game_width = 3, game_mines = {(2, 2)},
                       board = [[False, False, False], [False, False, False], [False, False, True]],
                       mines_found = {}\<rparr>)
       [(0, 0), (1, 1), (1, 2), (2, 1)] = [0, 1, 1, 1]"
  by code_simp

text \<open>
  C1. On a fresh solver of height 3 and width 3 the calls \<open>add_knowledge((0,0),0)\<close>,
  \<open>add_knowledge((1,1),1)\<close>, \<open>add_knowledge((1,2),1)\<close>, \<open>add_knowledge((2,1),1)\<close> all
  return, and afterwards \<open>(2,2)\<close> is in \<open>mines\<close> and the eight other cells of the grid are
  in \<open>safes\<close>.
\<close>

theorem end_to_end_scenario:
  "add_knowledge_seq (MinesweeperAI 3 3) [((0, 0), 0), ((1, 1), 1), ((1, 2), 1), ((2, 1), 1)] =
     Some (Inr \<lparr>height = 3, width = 3,
                moves_made = {(0, 0), (1, 1), (1, 2), (2, 1)}, mines = {(2, 2)},
                safes = {(0, 0), (0, 1), (0, 2), (1, 0), (1, 1), (1, 2), (2, 0), (2, 1)},
                knowledge = []\<rparr>)"
  by code_simp

text \<open>
  C2. The claim asks that the loop of \<open>add_knowledge\<close> stop on every finite grid and
  knowledge list. The code does not: in the game on 3 rows and 4 columns with the mines
  \<open>(0,1)\<close>, \<open>(1,1)\<close> and \<open>(2,0)\<close>, the calls \<open>add_knowledge((1,0),3)\<close>,
  \<open>add_knowledge((0,0),2)\<close>, \<open>add_knowledge((0,2),2)\<close> and \<open>add_knowledge((0,3),0)\<close> reveal
  cells without a mine and pass the counts that \<open>nearby_mines\<close> reports, and the fourth call
  never returns. The third call leaves the known mines \<open>(0,1)\<close> and \<open>(1,1)\<close> out of the cells
  of its sentence but keeps the count 2, which stores \<open>{(0,3),(1,2),(1,3)} = 2\<close>; the fourth
  call marks those three cells safe, which leaves \<open>{} = 2\<close>, and from then on every pass
  derives one more sentence over \<open>{(2,0),(2,1)}\<close>, with the counts -1, -3, -5 and so on.
\<close>

theorem truthful_game_never_returns:
  "map (nearby_mines \<lparr>game_height = 3, game_width = 4, game_mines = {(0, 1), (1, 1), (2, 0)},
                       board = [[False, True, False, False], [False, True, False, False],
                                [True, False, False, False]],
                       mines_found = {}\<rparr>)
       [(1, 0), (0, 0), (0, 2), (0, 3)] = [3, 2, 2, 0] \<and>
   map (\<lambda>c. [[False, True, False, False], [False, True, False, False],
              [True, False, False, False]] ! nat (fst c) ! nat (snd c))
       [(1, 0), (0, 0), (0, 2), (0, 3)] = [False, False, False, False] \<and>
   add_knowledge_seq (MinesweeperAI 3 4) [((1, 0), 3), ((0, 0), 2), ((0, 2), 2)] =
     Some (Inr \<lparr>height = 3, width = 4, moves_made = {(0, 0), (0, 2), (1, 0)},
                mines = {(0, 1), (1, 1)}, safes = {(0, 0), (0, 2), (1, 0)},
                knowledge = [Sentence {(2, 0), (2, 1)} 1, Sentence {(0, 3), (1, 2), (1, 3)} 2]\<rparr>) \<and>
   add_knowledge_seq (MinesweeperAI 3 4) [((1, 0), 3), ((0, 0), 2), ((0, 2), 2), ((0, 3), 0)] =
     None"
proof -
  have counts: "map (nearby_mines \<lparr>game_height = 3, game_width = 4,
                       game_mines = {(0, 1), (1, 1), (2, 0)},
                       board = [[False, True, False, False], [False, True, False, False],
                                [True, False, False, False]],
                       mines_found = {}\<rparr>)
       [(1, 0), (0, 0), (0, 2), (0, 3)] = [3, 2, 2, 0]"
    by code_simp
  have clear: "map (\<lambda>c. [[False, True, False, False], [False, True, False, False],
              [True, False, False, False]] ! nat (fst c) ! nat (snd c))
       [(1, 0), (0, 0), (0, 2), (0, 3)] = [False, False, False, False]"
    by code_simp
  have "add_knowledge_seq (MinesweeperAI 3 4)
          ([((1, 0), 3), ((0, 0), 2), ((0, 2), 2)] @ [((0, 3), 0)]) = None"
    unfolding add_knowledge_seq_append game_calls by (simp add: game_last_call)
  then have "add_knowledge_seq (MinesweeperAI 3 4)
          [((1, 0), 3), ((0, 0), 2), ((0, 2), 2), ((0, 3), 0)] = None"
    by simp
  then show ?thesis using counts clear game_calls by (intro conjI)
qed

text \<open>
  C3. Every pass returns, with the knowledge list \<open>kb\<close> left by its two marking steps
  followed by the queue of the subset step on \<open>kb\<close>, and asks for another pass when the
  queue is not empty. For every knowledge list \<open>kb\<close>, the sentences of the queue are pairwise
  different, each is the difference \<open>(B.cells - A.cells, B.count - A.count)\<close> of two
  sentences of \<open>kb\<close> with unequal cell sets and \<open>A.cells\<close> a subset of \<open>B.cells\<close>, and the
  difference of every such pair is in the queue exactly when no equal sentence is in \<open>kb\<close>.
\<close>

theorem subset_inference_candidates:
  "(\<exists>again s'. propagation_pass s = Inr (again, s') \<and>
      knowledge s' = after_safes s @ subset_inference (after_safes s) \<and>
      (subset_inference (after_safes s) \<noteq> [] \<longrightarrow> again)) \<and>
   distinct (subset_inference kb) \<and>
   (\<forall>N \<in> set (subset_inference kb).
      \<exists>A \<in> set kb. \<exists>B \<in> set kb. cells A \<noteq> cells B \<and> cells A \<subseteq> cells B \<and>
        N = Sentence (cells B - cells A) (count B - count A)) \<and>
   (\<forall>A \<in> set kb. \<forall>B \<in> set kb. cells A \<noteq> cells B \<and> cells A \<subseteq> cells B \<longrightarrow>
      (Sentence (cells B - cells A) (count B - count A) \<in> set (subset_inference kb) \<longleftrightarrow>
       Sentence (cells B - cells A) (count B - count A) \<notin> set kb))"
proof (intro conjI ballI allI impI)
  have "propagation_pass s = Inr (pass_again s, after_pass s)"
    by (rule propagation_pass_eq)
  moreover have "knowledge (after_pass s) = after_safes s @ subset_inference (after_safes s)"
    by (simp add: after_pass_def)
  moreover have "subset_inference (after_safes s) \<noteq> [] \<longrightarrow> pass_again s"
    by (simp add: pass_again_def)
  ultimately show "\<exists>again s'. propagation_pass s = Inr (again, s') \<and>
      knowledge s' = after_safes s @ subset_inference (after_safes s) \<and>
      (subset_inference (after_safes s) \<noteq> [] \<longrightarrow> again)"
    by blast
  show "distinct (subset_inference kb)" by (rule subset_inference_distinct)
  show "\<exists>A \<in> set kb. \<exists>B \<in> set kb. cells A \<noteq> cells B \<and> cells A \<subseteq> cells B \<and>
        N = Sentence (cells B - cells A) (count B - count A)"
    if "N \<in> set (subset_inference kb)" for N
    using subset_inferenceD [OF that] unfolding proper_subset_def difference_def by blast
  show "Sentence (cells B - cells A) (count B - count A) \<in> set (subset_inference kb) \<longleftrightarrow>
        Sentence (cells B - cells A) (count B - count A) \<notin> set kb"
    if "A \<in> set kb" "B \<in> set kb" "cells A \<noteq> cells B \<and> cells A \<subseteq> cells B" for A B
  proof -
    have "difference A B \<in> candidates kb kb"
      unfolding candidates_def candidates_of_def using that by (auto simp: proper_subset_def)
    then show ?thesis by (simp add: subset_inference_set difference_def)
  qed
qed

text \<open>The theorem at a solver that knows \<open>A = {(1,1),(1,2)} = 1\<close> and
  \<open>B = {(1,1),(1,2),(1,3)} = 2\<close>: the pass appends \<open>{(1,3)} = 1\<close> to the knowledge list and
  asks for another pass, and the loop ends with \<open>(1,3)\<close> marked as a mine.\<close>

theorem subset_inference_candidates_witness:
  "propagation_pass
     \<lparr>height = 3, width = 4, moves_made = {}, mines = {}, safes = {},
       knowledge = [Sentence {(1, 1), (1, 2)} 1, Sentence {(1, 1), (1, 2), (1, 3)} 2]\<rparr> =
     Inr (True,
       \<lparr>height = 3, width = 4, moves_made = {}, mines = {}, safes = {},
         knowledge = [Sentence {(1, 1), (1, 2)} 1, Sentence {(1, 1), (1, 2), (1, 3)} 2,
                      Sentence {(1, 3)} 1]\<rparr>) \<and>
   [Sentence {(1, 1), (1, 2)} 1, Sentence {(1, 1), (1, 2), (1, 3)} 2, Sentence {(1, 3)} 1] =
     [Sentence {(1, 1), (1, 2)} 1, Sentence {(1, 1), (1, 2), (1, 3)} 2] @
     subset_inference [Sentence {(1, 1), (1, 2)} 1, Sentence {(1, 1), (1, 2), (1, 3)} 2] \<and>
   Sentence {(1, 3)} 1 \<in> set (subset_inference
     [Sentence {(1, 1), (1, 2)} 1, Sentence {(1, 1), (1, 2), (1, 3)} 2]) \<and>
   distinct (subset_inference [Sentence {(1, 1), (1, 2)} 1, Sentence {(1, 1), (1, 2), (1, 3)} 2]) \<and>
   propagate
     \<lparr>height = 3, width = 4, moves_made = {}, mines = {}, safes = {},
       knowledge = [Sentence {(1, 1), (1, 2)} 1, Sentence {(1, 1), (1, 2), (1, 3)} 2]\<rparr> =
     Some (Inr \<lparr>height = 3, width = 4, moves_made = {}, mines = {(1, 3)}, safes = {},
                 knowledge = [Sentence {(1, 1), (1, 2)} 1, Sentence {(1, 1), (1, 2)} 1]\<rparr>)"
proof -
  let ?A = "Sentence {(1, 1), (1, 2)} 1"
  let ?B = "Sentence {(1, 1), (1, 2), (1, 3)} 2"
  let ?s = "\<lparr>height = 3, width = 4, moves_made = {}, mines = {}, safes = {},
             knowledge = [?A, ?B]\<rparr>"
  let ?s' = "\<lparr>height = 3, width = 4, moves_made = {}, mines = {}, safes = {},
             knowledge = [?A, ?B, Sentence {(1, 3)} 1]\<rparr>"
  note inst = subset_inference_candidates [of ?s "[?A, ?B]"]
  have pass: "propagation_pass ?s = Inr (True, ?s')" by code_simp
  have kb: "after_safes ?s = [?A, ?B]" by code_simp
  have run: "propagate ?s =
     Some (Inr \<lparr>height = 3, width = 4, moves_made = {}, mines = {(1, 3)}, safes = {},
                 knowledge = [?A, ?A]\<rparr>)"
    by code_simp
  obtain again s' where p: "propagation_pass ?s = Inr (again, s')"
    and k: "knowledge s' = after_safes ?s @ subset_inference (after_safes ?s)"
    using inst by blast
  have "s' = ?s'" using p unfolding pass by simp
  then have app: "[?A, ?B, Sentence {(1, 3)} 1] = [?A, ?B] @ subset_inference [?A, ?B]"
    using k unfolding kb by simp
  have q: "cells ?A \<noteq> cells ?B \<and> cells ?A \<subseteq> cells ?B" by code_simp
  have c: "Sentence (cells ?B - cells ?A) (count ?B - count ?A) = Sentence {(1, 3)} 1"
    by code_simp
  have n: "Sentence {(1, 3)} 1 \<notin> set [?A, ?B]" by code_simp
  have mem: "?A \<in> set [?A, ?B]" "?B \<in> set [?A, ?B]" by simp_all
  have new: "Sentence {(1, 3)} 1 \<in> set (subset_inference [?A, ?B])"
    using inst mem q n unfolding c [symmetric] by blast
  have dist: "distinct (subset_inference [?A, ?B])" using inst by blast
  show ?thesis using pass app new dist run by (intro conjI)
qed

text \<open>
  C4. The claim asks that \<open>safes\<close> and \<open>mines\<close> be disjoint after every call of
  \<open>add_knowledge\<close>. The code does not keep them so: in the game on one row and four columns
  whose only mine is \<open>(0,1)\<close>, the calls \<open>add_knowledge((0,0),1)\<close>,
  \<open>add_knowledge((0,2),1)\<close> and \<open>add_knowledge((0,3),0)\<close> reveal cells without a mine and
  pass the counts that \<open>nearby_mines\<close> reports, and they leave \<open>(0,3)\<close> in both \<open>safes\<close> and
  \<open>mines\<close>. The second call leaves the known mine \<open>(0,1)\<close> out of the unexplored
  neighbours of \<open>(0,2)\<close> but keeps the count 1, so it marks \<open>(0,3)\<close> as a mine; the third
  call reveals \<open>(0,3)\<close> and marks it safe.
\<close>

theorem truthful_game_safe_and_mine:
  "map (nearby_mines \<lparr>game_height = 1, game_width = 4, game_mines = {(0, 1)},
                       board = [[False, True, False, False]], mines_found = {}\<rparr>)
       [(0, 0), (0, 2), (0, 3)] = [1, 1, 0] \<and>
   map (\<lambda>c. [[False, True, False, False]] ! nat (fst c) ! nat (snd c))
       [(0, 0), (0, 2), (0, 3)] = [False, False, False] \<and>
   add_knowledge_seq (MinesweeperAI 1 4) [((0, 0), 1), ((0, 2), 1)] =
     Some (Inr \<lparr>height = 1, width = 4, moves_made = {(0, 0), (0, 2)},
                mines = {(0, 1), (0, 3)}, safes = {(0, 0), (0, 2)}, knowledge = []\<rparr>) \<and>
   add_knowledge_seq (MinesweeperAI 1 4) [((0, 0), 1), ((0, 2), 1), ((0, 3), 0)] =
     Some (Inr \<lparr>height = 1, width = 4, moves_made = {(0, 0), (0, 2), (0, 3)},
                mines = {(0, 1), (0, 3)}, safes = {(0, 0), (0, 2), (0, 3)}, knowledge = []\<rparr>) \<and>
   (0, 3) \<in> safes \<lparr>height = 1, width = 4, moves_made = {(0, 0), (0, 2), (0, 3)},
                mines = {(0, 1), (0, 3)}, safes = {(0, 0), (0, 2), (0, 3)}, knowledge = []\<rparr>
          \<inter> mines \<lparr>height = 1, width = 4, moves_made = {(0, 0), (0, 2), (0, 3)},
                mines = {(0, 1), (0, 3)}, safes = {(0, 0), (0, 2), (0, 3)}, knowledge = []\<rparr>"
  by code_simp

text \<open>
  C5. For every sentence, \<open>known_mines\<close> returns the cell set exactly when the count equals
  the number of cells and returns \<open>None\<close> (not an empty set) otherwise; \<open>known_safes\<close>
  returns the cell set exactly when the count is 0 and returns \<open>None\<close> otherwise.
\<close>

theorem known_mines_known_safes:
  "(known_mines S = Some (cells S) \<longleftrightarrow> count S = int (card (cells S))) \<and>
   (count S \<noteq> int (card (cells S)) \<longrightarrow> known_mines S = None) \<and>
   (known_safes S = Some (cells S) \<longleftrightarrow> count S = 0) \<and>
   (count S \<noteq> 0 \<longrightarrow> known_safes S = None)"
  by (simp add: known_mines_def known_safes_def)

theorem known_mines_known_safes_witness:
  "known_mines (Sentence {(1, 3)} 1) = Some {(1, 3)} \<and>
   known_safes (Sentence {(1, 3)} 1) = None \<and>
   known_mines (Sentence {(1, 1), (1, 2)} 0) = None \<and>
   known_safes (Sentence {(1, 1), (1, 2)} 0) = Some {(1, 1), (1, 2)}"
  using known_mines_known_safes [of "Sentence {(1, 3)} 1"]
    known_mines_known_safes [of "Sentence {(1, 1), (1, 2)} 0"]
  by (simp add: Sentence_def)

text \<open>
  C6. For every sentence and cell: marking a cell that is not in the sentence, as a mine or
  as safe, leaves the sentence as it is; marking a cell of the sentence as a mine removes it
  and lowers the count by exactly 1; marking it safe removes it and keeps the count.
\<close>

theorem sentence_marking:
  "(c \<notin> cells S \<longrightarrow> sentence_mark_mine c S = S \<and> sentence_mark_safe c S = S) \<and>
   (c \<in> cells S \<longrightarrow>
      cells (sentence_mark_mine c S) = cells S - {c} \<and>
      count (sentence_mark_mine c S) = count S - 1 \<and>
      cells (sentence_mark_safe c S) = cells S - {c} \<and>
      count (sentence_mark_safe c S) = count S)"
  by (simp add: sentence_mark_mine_def sentence_mark_safe_def)

theorem sentence_marking_witness:
  "sentence_mark_mine (1, 3) (Sentence {(1, 1), (1, 2)} 1) = Sentence {(1, 1), (1, 2)} 1 \<and>
   cells (sentence_mark_mine (1, 1) (Sentence {(1, 1), (1, 2)} 1)) = {(1, 2)} \<and>
   count (sentence_mark_mine (1, 1) (Sentence {(1, 1), (1, 2)} 1)) = 0 \<and>
   cells (sentence_mark_safe (1, 1) (Sentence {(1, 1), (1, 2)} 1)) = {(1, 2)} \<and>
   count (sentence_mark_safe (1, 1) (Sentence {(1, 1), (1, 2)} 1)) = 1"
  using sentence_marking [of "(1, 3)" "Sentence {(1, 1), (1, 2)} 1"]
    sentence_marking [of "(1, 1)" "Sentence {(1, 1), (1, 2)} 1"]
  by (simp add: Sentence_def insert_Diff_if)

text \<open>
  C7, as the code has it. In the 3 by 3 scenario, after \<open>add_knowledge((0,0),0)\<close> on a fresh
  solver, the call \<open>add_knowledge((1,1),1)\<close> computes the unexplored neighbours
  \<open>{(0,2),(1,2),(2,0),(2,1),(2,2)}\<close> of \<open>(1,1)\<close> (the first call made only \<open>(0,1)\<close>, \<open>(1,0)\<close>
  and \<open>(1,1)\<close> safe) and, 5 being more than the count 1, appends the sentence
  \<open>{(0,2),(1,2),(2,0),(2,1),(2,2)} = 1\<close>.
\<close>

theorem center_neighbors:
  "add_knowledge (MinesweeperAI 3 3) (0, 0) 0 =
     Some (Inr \<lparr>height = 3, width = 3, moves_made = {(0, 0)}, mines = {},
                safes = {(0, 0), (0, 1), (1, 0), (1, 1)}, knowledge = []\<rparr>) \<and>
   find_unexplored_neighbors
     (ai_mark_safe (1, 1)
        \<lparr>height = 3, width = 3, moves_made = {(0, 0), (1, 1)}, mines = {},
          safes = {(0, 0), (0, 1), (1, 0), (1, 1)}, knowledge = []\<rparr>) (1, 1)
     = {(0, 2), (1, 2), (2, 0), (2, 1), (2, 2)} \<and>
   add_knowledge \<lparr>height = 3, width = 3, moves_made = {(0, 0)}, mines = {},
                   safes = {(0, 0), (0, 1), (1, 0), (1, 1)}, knowledge = []\<rparr> (1, 1) 1
     = Some (Inr \<lparr>height = 3, width = 3, moves_made = {(0, 0), (1, 1)}, mines = {},
                   safes = {(0, 0), (0, 1), (1, 0), (1, 1)},
                   knowledge = [Sentence {(0, 2), (1, 2), (2, 0), (2, 1), (2, 2)} 1]\<rparr>)"
  by code_simp

text \<open>C7 as stated fails: the unexplored neighbours of \<open>(1,1)\<close> are not
  \<open>{(1,2),(2,1),(2,2)}\<close>, and the call does not leave the sentence
  \<open>{(1,2),(2,1),(2,2)} = 1\<close> in the knowledge list.\<close>

theorem center_neighbors_counterexample:
  "add_knowledge (MinesweeperAI 3 3) (0, 0) 0 =
     Some (Inr \<lparr>height = 3, width = 3, moves_made = {(0, 0)}, mines = {},
                safes = {(0, 0), (0, 1), (1, 0), (1, 1)}, knowledge = []\<rparr>) \<and>
   find_unexplored_neighbors
     (ai_mark_safe (1, 1)
        \<lparr>height = 3, width = 3, moves_made = {(0, 0), (1, 1)}, mines = {},
          safes = {(0, 0), (0, 1), (1, 0), (1, 1)}, knowledge = []\<rparr>) (1, 1)
     \<noteq> {(1, 2), (2, 1), (2, 2)} \<and>
   add_knowledge \<lparr>height = 3, width = 3, moves_made = {(0, 0)}, mines = {},
                   safes = {(0, 0), (0, 1), (1, 0), (1, 1)}, knowledge = []\<rparr> (1, 1) 1
     \<noteq> Some (Inr \<lparr>height = 3, width = 3, moves_made = {(0, 0), (1, 1)}, mines = {},
                   safes = {(0, 0), (0, 1), (1, 0), (1, 1)},
                   knowledge = [Sentence {(1, 2), (2, 1), (2, 2)} 1]\<rparr>)"
  by code_simp

text \<open>
  C8. In every solver state \<open>make_safe_move\<close> has an outcome; every outcome leaves the
  solver as it was, returns a cell of \<open>safes - moves_made\<close> when that set is not empty, and
  returns \<open>None\<close> when it is empty.
\<close>

theorem make_safe_move_frame:
  "(\<exists>outcome. make_safe_move s outcome) \<and>
   (\<forall>printed r s'. make_safe_move s (printed, r, s') \<longrightarrow>
      s' = s \<and>
      (safes s - moves_made s \<noteq> {} \<longrightarrow> (\<exists>c. r = Some c \<and> c \<in> safes s - moves_made s)) \<and>
      (safes s - moves_made s = {} \<longrightarrow> r = None))"
proof
  show "\<exists>outcome. make_safe_move s outcome"
  proof (cases "safes s - moves_made s = {}")
    case True
    then show ?thesis using no_move by blast
  next
    case False
    then obtain c where "c \<in> safes s - moves_made s" by blast
    then show ?thesis using move by blast
  qed
  show "\<forall>printed r s'. make_safe_move s (printed, r, s') \<longrightarrow>
      s' = s \<and>
      (safes s - moves_made s \<noteq> {} \<longrightarrow> (\<exists>c. r = Some c \<and> c \<in> safes s - moves_made s)) \<and>
      (safes s - moves_made s = {} \<longrightarrow> r = None)"
  proof (intro allI impI)
    fix printed r s' assume "make_safe_move s (printed, r, s')"
    then show "s' = s \<and>
      (safes s - moves_made s \<noteq> {} \<longrightarrow> (\<exists>c. r = Some c \<and> c \<in> safes s - moves_made s)) \<and>
      (safes s - moves_made s = {} \<longrightarrow> r = None)"
      by cases auto
  qed
qed

text \<open>The theorem at a solver with one safe cell not yet played, and at a fresh solver.\<close>

theorem make_safe_move_frame_witness:
  "make_safe_move (ai_mark_safe (0, 1) (MinesweeperAI 3 3))
     ({(0, 1)}, Some (0, 1), ai_mark_safe (0, 1) (MinesweeperAI 3 3)) \<and>
   (\<exists>c. Some (0, 1) = Some c \<and>
        c \<in> safes (ai_mark_safe (0, 1) (MinesweeperAI 3 3)) -
            moves_made (ai_mark_safe (0, 1) (MinesweeperAI 3 3))) \<and>
   safes (MinesweeperAI 3 3) - moves_made (MinesweeperAI 3 3) = {} \<and>
   make_safe_move (MinesweeperAI 3 3) ({}, None, MinesweeperAI 3 3)"
proof -
  let ?s = "ai_mark_safe (0, 1) (MinesweeperAI 3 3)"
  have d: "safes ?s - moves_made ?s = {(0, 1)}"
    by (simp add: ai_mark_safe_def MinesweeperAI_def)
  have e: "safes (MinesweeperAI 3 3) - moves_made (MinesweeperAI 3 3) = {}"
    by (simp add: MinesweeperAI_def)
  have m: "make_safe_move ?s ({(0, 1)}, Some (0, 1), ?s)"
    using move [of "(0, 1)" ?s] unfolding d by simp
  have n: "make_safe_move (MinesweeperAI 3 3) ({}, None, MinesweeperAI 3 3)"
    using no_move [of "MinesweeperAI 3 3"] unfolding e by simp
  have "\<exists>c. Some (0, 1) = Some c \<and> c \<in> safes ?s - moves_made ?s"
    using m make_safe_move_frame [of ?s] unfolding d by blast
  then show ?thesis using m n e by (intro conjI)
qed

text \<open>
  C9, as the code has it. \<open>add_knowledge\<close> does not check the cell against the grid. Given a
  cell outside the grid it raises nothing: whenever the call returns, it returns a solver
  state, with the cell recorded in \<open>moves_made\<close> and in \<open>safes\<close> and the grid size unchanged.
  Only the neighbours of the cell are held against the bounds: the unexplored neighbours it
  works with lie in the grid.
\<close>

theorem out_of_bounds_accepted:
  assumes "\<not> in_grid s c" "add_knowledge s c n = Some r"
  shows "(\<exists>s'. r = Inr s' \<and> c \<in> moves_made s' \<and> c \<in> safes s' \<and>
               height s' = height s \<and> width s' = width s) \<and>
         (\<forall>x \<in> find_unexplored_neighbors (observed s c) c. in_grid s x)"
  using add_knowledge_step [OF assms(2)] unexplored_in_grid [of _ "observed s c" c] by auto

theorem out_of_bounds_accepted_witness:
  "\<not> in_grid (MinesweeperAI 3 3) (5, 5) \<and>
   add_knowledge (MinesweeperAI 3 3) (5, 5) 0 =
     Some (Inr \<lparr>height = 3, width = 3, moves_made = {(5, 5)}, mines = {},
                safes = {(5, 5)}, knowledge = []\<rparr>) \<and>
   (\<exists>s'. (Inr \<lparr>height = 3, width = 3, moves_made = {(5, 5)}, mines = {},
                 safes = {(5, 5)}, knowledge = []\<rparr> :: error + ai) = Inr s' \<and>
         (5, 5) \<in> moves_made s' \<and> (5, 5) \<in> safes s' \<and>
         height s' = height (MinesweeperAI 3 3) \<and> width s' = width (MinesweeperAI 3 3))"
proof -
  have g: "\<not> in_grid (MinesweeperAI 3 3) (5, 5)"
    by (simp add: in_grid_def MinesweeperAI_def)
  have r: "add_knowledge (MinesweeperAI 3 3) (5, 5) 0 =
     Some (Inr \<lparr>height = 3, width = 3, moves_made = {(5, 5)}, mines = {},
                safes = {(5, 5)}, knowledge = []\<rparr>)"
    by code_simp
  show ?thesis using g r out_of_bounds_accepted [OF g r] by blast
qed

text \<open>
  C9 as stated fails. On a fresh 3 by 3 solver \<open>add_knowledge((3,3),1)\<close> returns a solver
  state: the cell \<open>(3,3)\<close>, outside the grid, is recorded as played and safe, and its one
  neighbour inside the grid, \<open>(2,2)\<close>, is marked as a mine.
\<close>

theorem out_of_bounds_counterexample:
  "add_knowledge (MinesweeperAI 3 3) (3, 3) 1 =
     Some (Inr \<lparr>height = 3, width = 3, moves_made = {(3, 3)}, mines = {(2, 2)},
                safes = {(3, 3)}, knowledge = []\<rparr>)"
  by code_simp

text \<open>
  C10. The property that every cell of every sentence of the knowledge list lies in the grid
  and is in none of \<open>safes\<close>, \<open>mines\<close> and \<open>moves_made\<close> holds of a fresh solver and is kept
  by \<open>mark_safe\<close> and
  \<open>mark_mine\<close> of the solver, by every call of \<open>add_knowledge\<close> that returns, by
  \<open>make_safe_move\<close> and by \<open>make_random_move\<close>.
\<close>

theorem knowledge_cells_stay_unclassified:
  assumes "knowledge_inv s"
  shows "knowledge_inv (MinesweeperAI h w) \<and>
         knowledge_inv (ai_mark_safe c s) \<and> knowledge_inv (ai_mark_mine c s) \<and>
         (\<forall>n s'. add_knowledge s c n = Some (Inr s') \<longrightarrow> knowledge_inv s') \<and>
         (\<forall>printed r s'. make_safe_move s (printed, r, s') \<longrightarrow> knowledge_inv s') \<and>
         (\<forall>draws. knowledge_inv (snd (make_random_move s draws)))"
proof (intro conjI allI impI)
  show "knowledge_inv (MinesweeperAI h w)"
    by (simp add: knowledge_inv_def MinesweeperAI_def)
  show "knowledge_inv (ai_mark_safe c s)" "knowledge_inv (ai_mark_mine c s)"
    using assms by (rule knowledge_inv_mark)+
  show "knowledge_inv s'" if "add_knowledge s c n = Some (Inr s')" for n s'
    using add_knowledge_step [OF that] assms by auto
  show "knowledge_inv s'" if "make_safe_move s (printed, r, s')" for printed r s'
    using that assms by cases auto
  show "knowledge_inv (snd (make_random_move s draws))" for draws
    using assms by (simp add: make_random_move_state)
qed

text \<open>The theorem at the state the 3 by 3 scenario is in after its second call, and the
  state after the third call \<open>add_knowledge((1,2),1)\<close>.\<close>

theorem knowledge_cells_stay_unclassified_witness:
  "knowledge_inv \<lparr>height = 3, width = 3, moves_made = {(0, 0), (1, 1)}, mines = {},
                   safes = {(0, 0), (0, 1), (1, 0), (1, 1)},
                   knowledge = [Sentence {(0, 2), (1, 2), (2, 0), (2, 1), (2, 2)} 1]\<rparr> \<and>
   knowledge_inv \<lparr>height = 3, width = 3, moves_made = {(0, 0), (1, 1), (1, 2)}, mines = {},
                   safes = {(0, 0), (0, 1), (1, 0), (1, 1), (1, 2), (2, 0)},
                   knowledge = [Sentence {(0, 2), (2, 1), (2, 2)} 1,
                                Sentence {(0, 2), (2, 1), (2, 2)} 1]\<rparr>"
proof -
  let ?s = "\<lparr>height = 3, width = 3, moves_made = {(0, 0), (1, 1)}, mines = {},
             safes = {(0, 0), (0, 1), (1, 0), (1, 1)},
             knowledge = [Sentence {(0, 2), (1, 2), (2, 0), (2, 1), (2, 2)} 1]\<rparr>"
  have inv: "knowledge_inv ?s" by code_simp
  have call: "add_knowledge ?s (1, 2) 1 =
      Some (Inr \<lparr>height = 3, width = 3, moves_made = {(0, 0), (1, 1), (1, 2)}, mines = {},
                   safes = {(0, 0), (0, 1), (1, 0), (1, 1), (1, 2), (2, 0)},
                   knowledge = [Sentence {(0, 2), (2, 1), (2, 2)} 1,
                                Sentence {(0, 2), (2, 1), (2, 2)} 1]\<rparr>)"
    by code_simp
  show ?thesis
    using inv call knowledge_cells_stay_unclassified [OF inv, where c = "(1, 2)"] by blast
qed

end
